theory Spec2Isabelle
  imports Main "HOL-Library.Word" "HOL-Library.Code_Target_Numeral"
begin

unbundle bit_operations_syntax

section \<open>The parts of Go's standard library the checker calls\<close>

text \<open>
  The source file \<^verbatim>\<open>openstack.go\<close> classifies addresses with the package \<^verbatim>\<open>net\<close> and
  renders port numbers with \<^verbatim>\<open>strconv.Itoa\<close>. Those functions belong to the Go
  distribution, not to the repository; they are transcribed here from \<^verbatim>\<open>net/ip.go\<close>
  and \<^verbatim>\<open>net/parse.go\<close> so that the repository's own functions can be stated over
  them, with the two rules of the current releases for what is not an address: a
  decimal field of more than one digit that begins with a zero, and a hexadecimal
  group of more than four digits. A Go string is a sequence of bytes, as a HOL
  \<^typ>\<open>string\<close> is; a \<^verbatim>\<open>net.IP\<close> is a slice of bytes, and the nil slice is the empty
  list.
\<close>

type_synonym byte = "8 word"
type_synonym IP = "byte list"
type_synonym IPMask = "byte list"

record IPNet =
  net_IP :: IP
  net_Mask :: IPMask

definition IPv4len :: nat where
  "IPv4len = 4"

definition IPv6len :: nat where
  "IPv6len = 16"

definition v4InV6Prefix :: "byte list" where
  "v4InV6Prefix = [0, 0, 0, 0, 0, 0, 0, 0, 0, 0, 0xff, 0xff]"

definition IPv4 :: "byte \<Rightarrow> byte \<Rightarrow> byte \<Rightarrow> byte \<Rightarrow> IP" where
  "IPv4 a b c d = v4InV6Prefix @ [a, b, c, d]"

definition IPv6loopback :: IP where
  "IPv6loopback = [0, 0, 0, 0, 0, 0, 0, 0, 0, 0, 0, 0, 0, 0, 0, 1]"

subsection \<open>Reading numbers: \<^verbatim>\<open>dtoi\<close> and \<^verbatim>\<open>xtoi\<close>\<close>

definition big :: nat where
  "big = 0xFFFFFF"

definition isDecDigit :: "char \<Rightarrow> bool" where
  "isDecDigit c = (48 \<le> (of_char c :: nat) \<and> (of_char c :: nat) \<le> 57)"

definition hexValue :: "char \<Rightarrow> nat option" where
  "hexValue c =
     (let k = (of_char c :: nat) in
      if 48 \<le> k \<and> k \<le> 57 then Some (k - 48)
      else if 97 \<le> k \<and> k \<le> 102 then Some (k - 97 + 10)
      else if 65 \<le> k \<and> k \<le> 70 then Some (k - 65 + 10)
      else None)"

text \<open>
  \<^verbatim>\<open>dtoi(s)\<close> returns the number read, the count of characters consumed and a flag.
  The loop gives up once the number reaches \<^verbatim>\<open>big\<close>; reading nothing is a failure.
\<close>

fun dtoi_loop :: "string \<Rightarrow> nat \<Rightarrow> nat \<Rightarrow> nat \<times> nat \<times> bool" where
  "dtoi_loop [] n i = (if i = 0 then (0, 0, False) else (n, i, True))"
| "dtoi_loop (c # cs) n i =
     (if isDecDigit c then
        (let n' = n * 10 + ((of_char c :: nat) - 48) in
         if n' \<ge> big then (big, i, False) else dtoi_loop cs n' (i + 1))
      else if i = 0 then (0, 0, False) else (n, i, True))"

definition dtoi :: "string \<Rightarrow> nat \<times> nat \<times> bool" where
  "dtoi s = dtoi_loop s 0 0"

fun xtoi_loop :: "string \<Rightarrow> nat \<Rightarrow> nat \<Rightarrow> nat \<times> nat \<times> bool" where
  "xtoi_loop [] n i = (if i = 0 then (0, i, False) else (n, i, True))"
| "xtoi_loop (c # cs) n i =
     (case hexValue c of
        Some v \<Rightarrow>
          (let n' = n * 16 + v in
           if n' \<ge> big then (0, i, False) else xtoi_loop cs n' (i + 1))
      | None \<Rightarrow> if i = 0 then (0, i, False) else (n, i, True))"

definition xtoi :: "string \<Rightarrow> nat \<times> nat \<times> bool" where
  "xtoi s = xtoi_loop s 0 0"

subsection \<open>Parsing addresses\<close>

text \<open>
  \<^verbatim>\<open>parseIPv4\<close> reads four decimal fields separated by dots; the first argument of the
  loop is the number of fields still to read, the second the field index \<^verbatim>\<open>i\<close>. A
  field of several digits that begins with a zero is refused. The result is the
  16-byte form \<^verbatim>\<open>IPv4(p[0], p[1], p[2], p[3])\<close>, or nil.
\<close>

fun parseIPv4_loop :: "nat \<Rightarrow> nat \<Rightarrow> string \<Rightarrow> (byte list \<times> string) option" where
  "parseIPv4_loop 0 i s = Some ([], s)"
| "parseIPv4_loop (Suc k) i s =
     (if s = [] then None
      else if i > 0 \<and> hd s \<noteq> CHR ''.'' then None
      else
        (let s1 = (if i > 0 then tl s else s) in
         case dtoi s1 of (n, c, ok) \<Rightarrow>
           if \<not> ok \<or> n > 0xFF then None
           else if c > 1 \<and> hd s1 = CHR ''0'' then None
           else
             (case parseIPv4_loop k (i + 1) (drop c s1) of
                None \<Rightarrow> None
              | Some (p, rest) \<Rightarrow> Some (of_nat n # p, rest))))"

definition parseIPv4 :: "string \<Rightarrow> IP" where
  "parseIPv4 s =
     (case parseIPv4_loop IPv4len 0 s of
        None \<Rightarrow> []
      | Some (p, rest) \<Rightarrow>
          if rest \<noteq> [] then [] else IPv4 (p ! 0) (p ! 1) (p ! 2) (p ! 3))"

text \<open>
  \<^verbatim>\<open>parseIPv6\<close>: groups of at most four hexadecimal digits separated by colons, at
  most one ellipsis \<^verbatim>\<open>::\<close>, and possibly a trailing dotted IPv4 address. The loop carries the
  rest of the string, the write position \<^verbatim>\<open>i\<close>, the position of the ellipsis
  (\<open>None\<close> for \<^verbatim>\<open>-1\<close>) and the 16 bytes written so far; \<open>None\<close> is the early
  \<^verbatim>\<open>return nil\<close>.
\<close>

function parseIPv6_loop ::
  "string \<Rightarrow> nat \<Rightarrow> nat option \<Rightarrow> IP \<Rightarrow> (string \<times> nat \<times> nat option \<times> IP) option" where
  "parseIPv6_loop s i ellipsis ip =
     (if \<not> i < IPv6len then Some (s, i, ellipsis, ip)
      else
        (case xtoi s of (n, c, ok) \<Rightarrow>
           if \<not> ok \<or> n > 0xFFFF \<or> c > 4 then None
           else if c < length s \<and> s ! c = CHR ''.'' then
             (if ellipsis = None \<and> i \<noteq> IPv6len - IPv4len then None
              else if i + IPv4len > IPv6len then None
              else
                (let ip4 = parseIPv4 s in
                 if ip4 = [] then None
                 else Some ([], i + IPv4len, ellipsis,
                        ip[i := ip4 ! 12, i + 1 := ip4 ! 13, i + 2 := ip4 ! 14, i + 3 := ip4 ! 15])))
           else
             (let ip1 = ip[i := of_nat (n div 256), i + 1 := of_nat n];
                  s1 = drop c s
              in
                if s1 = [] then Some (s1, i + 2, ellipsis, ip1)
                else if hd s1 \<noteq> CHR '':'' \<or> length s1 = 1 then None
                else if hd (tl s1) = CHR '':'' then
                  (if ellipsis \<noteq> None then None
                   else if tl (tl s1) = [] then Some ([], i + 2, Some (i + 2), ip1)
                   else parseIPv6_loop (tl (tl s1)) (i + 2) (Some (i + 2)) ip1)
                else parseIPv6_loop (tl s1) (i + 2) ellipsis ip1)))"
  by pat_completeness auto
termination
  by (relation "measure (\<lambda>(s, i, ellipsis, ip). IPv6len - i)") (auto simp: IPv6len_def)

text \<open>
  Expanding the ellipsis: the bytes written at \<^verbatim>\<open>[ellipsis, i)\<close> move up by
  \<^verbatim>\<open>n = IPv6len - i\<close>, highest first, and the gap is zeroed.
\<close>

definition expandEllipsis :: "nat \<Rightarrow> nat \<Rightarrow> IP \<Rightarrow> IP" where
  "expandEllipsis ellipsis i ip =
     (let n = IPv6len - i;
          moved = fold (\<lambda>j a. a[j + n := a ! j]) (rev [ellipsis ..< i]) ip
      in fold (\<lambda>j a. a[j := 0]) (rev [ellipsis ..< ellipsis + n]) moved)"

definition parseIPv6 :: "string \<Rightarrow> IP" where
  "parseIPv6 s =
     (let ip0 = replicate IPv6len (0 :: byte);
          lead = (length s \<ge> 2 \<and> s ! 0 = CHR '':'' \<and> s ! 1 = CHR '':'');
          s1 = (if lead then drop 2 s else s);
          ellipsis0 = (if lead then Some 0 else None)
      in
        if lead \<and> s1 = [] then ip0
        else
          (case parseIPv6_loop s1 0 ellipsis0 ip0 of
             None \<Rightarrow> []
           | Some (rest, i, ellipsis, ip) \<Rightarrow>
               if rest \<noteq> [] then []
               else if i < IPv6len then
                 (case ellipsis of None \<Rightarrow> [] | Some e \<Rightarrow> expandEllipsis e i ip)
               else if ellipsis \<noteq> None then []
               else ip))"

text \<open>
  \<^verbatim>\<open>ParseIP\<close> looks for the first dot or colon and hands the whole string to the
  matching parser; a string with neither is not an address, and the result is nil.
\<close>

fun ParseIP_scan :: "string \<Rightarrow> string \<Rightarrow> IP" where
  "ParseIP_scan [] s = []"
| "ParseIP_scan (c # cs) s =
     (if c = CHR ''.'' then parseIPv4 s
      else if c = CHR '':'' then parseIPv6 s
      else ParseIP_scan cs s)"

definition ParseIP :: "string \<Rightarrow> IP" where
  "ParseIP s = ParseIP_scan s s"

subsection \<open>Methods of \<^verbatim>\<open>net.IP\<close>\<close>

definition isZeros :: "byte list \<Rightarrow> bool" where
  "isZeros p = list_all (\<lambda>b. b = 0) p"

definition allFF :: "byte list \<Rightarrow> bool" where
  "allFF b = list_all (\<lambda>c. c = 0xff) b"

definition To4 :: "IP \<Rightarrow> IP" where
  "To4 ip =
     (if length ip = IPv4len then ip
      else if length ip = IPv6len \<and> isZeros (take 10 ip) \<and> ip ! 10 = 0xff \<and> ip ! 11 = 0xff
        then take 4 (drop 12 ip)
      else [])"

definition Equal :: "IP \<Rightarrow> IP \<Rightarrow> bool" where
  "Equal ip x =
     (if length ip = length x then ip = x
      else if length ip = IPv4len \<and> length x = IPv6len
        then take 12 x = v4InV6Prefix \<and> ip = drop 12 x
      else if length ip = IPv6len \<and> length x = IPv4len
        then take 12 ip = v4InV6Prefix \<and> drop 12 ip = x
      else False)"

definition IsLoopback :: "IP \<Rightarrow> bool" where
  "IsLoopback ip =
     (let ip4 = To4 ip in
      if ip4 \<noteq> [] then ip4 ! 0 = 127 else Equal ip IPv6loopback)"

definition IsLinkLocalMulticast :: "IP \<Rightarrow> bool" where
  "IsLinkLocalMulticast ip =
     (let ip4 = To4 ip in
      if ip4 \<noteq> [] then ip4 ! 0 = 224 \<and> ip4 ! 1 = 0 \<and> ip4 ! 2 = 0
      else length ip = IPv6len \<and> ip ! 0 = 0xff \<and> (ip ! 1) AND 0x0f = 0x02)"

definition IsLinkLocalUnicast :: "IP \<Rightarrow> bool" where
  "IsLinkLocalUnicast ip =
     (let ip4 = To4 ip in
      if ip4 \<noteq> [] then ip4 ! 0 = 169 \<and> ip4 ! 1 = 254
      else length ip = IPv6len \<and> ip ! 0 = 0xfe \<and> (ip ! 1) AND 0xc0 = 0x80)"

subsection \<open>Networks: \<^verbatim>\<open>CIDRMask\<close>, \<^verbatim>\<open>Mask\<close>, \<^verbatim>\<open>ParseCIDR\<close>, \<^verbatim>\<open>Contains\<close>\<close>

fun CIDRMask_loop :: "nat \<Rightarrow> nat \<Rightarrow> byte list" where
  "CIDRMask_loop 0 n = []"
| "CIDRMask_loop (Suc l) n =
     (if n \<ge> 8 then 0xff # CIDRMask_loop l (n - 8)
      else (NOT (drop_bit n (0xff :: byte))) # CIDRMask_loop l 0)"

definition CIDRMask :: "nat \<Rightarrow> nat \<Rightarrow> IPMask" where
  "CIDRMask ones bits =
     (if bits \<noteq> 8 * IPv4len \<and> bits \<noteq> 8 * IPv6len then []
      else if ones > bits then []
      else CIDRMask_loop (bits div 8) ones)"

definition Mask :: "IP \<Rightarrow> IPMask \<Rightarrow> IP" where
  "Mask ip msk =
     (let msk1 = (if length msk = IPv6len \<and> length ip = IPv4len \<and> allFF (take 12 msk)
                   then drop 12 msk else msk);
          ip1 = (if length msk1 = IPv4len \<and> length ip = IPv6len \<and> take 12 ip = v4InV6Prefix
                 then drop 12 ip else ip)
      in if length ip1 \<noteq> length msk1 then [] else map2 (AND) ip1 msk1)"

text \<open>
  The one error value of this part of the library is the \<^verbatim>\<open>ParseError\<close> of
  \<^verbatim>\<open>ParseCIDR\<close>, which carries the kind of text expected and the text itself.
\<close>

datatype net_error = ParseError string string

definition ParseCIDR :: "string \<Rightarrow> net_error + (IP \<times> IPNet)" where
  "ParseCIDR s =
     (if CHR ''/'' \<notin> set s then Inl (ParseError ''CIDR address'' s)
      else
        (let addr = takeWhile (\<lambda>c. c \<noteq> CHR ''/'') s;
             maskStr = tl (dropWhile (\<lambda>c. c \<noteq> CHR ''/'') s);
             ip4 = parseIPv4 addr;
             iplen = (if ip4 = [] then IPv6len else IPv4len);
             ip = (if ip4 = [] then parseIPv6 addr else ip4)
         in
           case dtoi maskStr of (n, i, ok) \<Rightarrow>
             if ip = [] \<or> \<not> ok \<or> i \<noteq> length maskStr \<or> n > 8 * iplen
             then Inl (ParseError ''CIDR address'' s)
             else
               (let m = CIDRMask n (8 * iplen) in
                Inr (ip, \<lparr>net_IP = Mask ip m, net_Mask = m\<rparr>))))"

definition networkNumberAndMask :: "IPNet \<Rightarrow> IP \<times> IPMask" where
  "networkNumberAndMask n =
     (let ip4 = To4 (net_IP n);
          ip = (if ip4 = [] then net_IP n else ip4);
          m = net_Mask n
      in
        if ip4 = [] \<and> length ip \<noteq> IPv6len then ([], [])
        else if length m = IPv4len then (if length ip \<noteq> IPv4len then ([], []) else (ip, m))
        else if length m = IPv6len then (if length ip = IPv4len then (ip, drop 12 m) else (ip, m))
        else ([], []))"

definition Contains :: "IPNet \<Rightarrow> IP \<Rightarrow> bool" where
  "Contains n ip =
     (case networkNumberAndMask n of (nn, m) \<Rightarrow>
        (let x = To4 ip;
             ip1 = (if x \<noteq> [] then x else ip);
             l = length ip1
         in
           if l \<noteq> length nn then False
           else list_all (\<lambda>i. (nn ! i) AND (m ! i) = (ip1 ! i) AND (m ! i)) [0 ..< l]))"

subsection \<open>\<^verbatim>\<open>strconv.Itoa\<close> and the compiled pattern\<close>

text \<open>
  \<^verbatim>\<open>strconv.Itoa\<close> writes an integer in decimal, with a minus sign when it is negative
  and no leading zeros. \<^verbatim>\<open>fmt.Sprintf("%d", n)\<close> writes the same text.
\<close>

fun formatDecimal :: "nat \<Rightarrow> string" where
  "formatDecimal n =
     (if n < 10 then [char_of (48 + n)]
      else formatDecimal (n div 10) @ [char_of (48 + n mod 10)])"

declare formatDecimal.simps [simp del]

definition Itoa :: "int \<Rightarrow> string" where
  "Itoa i = (if i < 0 then CHR ''-'' # formatDecimal (nat (- i)) else formatDecimal (nat i))"

text \<open>
  The pattern \<^verbatim>\<open>(\d*)-(\d*)\<close> is not anchored. \<open>submatchAt s\<close> is its match starting
  at the first character of \<open>s\<close>: both groups are greedy, so the first is the longest
  run of ASCII digits and must be followed by the hyphen. \<open>FindSubmatch\<close> is the
  leftmost match, which is what \<^verbatim>\<open>FindAllStringSubmatch(port, -1)[0]\<close> holds;
  \<^verbatim>\<open>MatchString\<close> is true when there is one.
\<close>

definition submatchAt :: "string \<Rightarrow> (string \<times> string) option" where
  "submatchAt s =
     (case dropWhile isDecDigit s of
        [] \<Rightarrow> None
      | c # r \<Rightarrow>
          if c = CHR ''-'' then Some (takeWhile isDecDigit s, takeWhile isDecDigit r)
          else None)"

fun FindSubmatch :: "string \<Rightarrow> (string \<times> string) option" where
  "FindSubmatch [] = None"
| "FindSubmatch (c # cs) =
     (case submatchAt (c # cs) of
        Some g \<Rightarrow> Some g
      | None \<Rightarrow> FindSubmatch cs)"

definition MatchString :: "string \<Rightarrow> bool" where
  "MatchString s = (FindSubmatch s \<noteq> None)"

section \<open>The data of the checker\<close>

text \<open>
  The records below carry the fields that \<^verbatim>\<open>openstack.go\<close> reads of the gophercloud
  and Slack types. A \<^verbatim>\<open>time.Time\<close> is kept as the two observations the code makes of
  it: \<^verbatim>\<open>UnixNano()\<close> and \<^verbatim>\<open>Local().String()\<close>.
\<close>

record Time =
  UnixNano :: "64 word"
  LocalString :: string

record SecGroupRule =
  Direction :: string
  Protocol :: string
  RemoteIPPrefix :: string
  PortRangeMin :: int
  PortRangeMax :: int

record SecGroup =
  sg_ID :: string
  sg_Name :: string
  sg_TenantID :: string
  sg_Rules :: "SecGroupRule list"
  sg_CreatedAt :: Time

record FixedIP =
  IPAddress :: string

record Port =
  port_ID :: string
  port_SecurityGroups :: "string list"
  port_FixedIPs :: "FixedIP list"

record FloatingIP =
  fip_PortID :: string

record Project =
  project_ID :: string
  project_Name :: string

record AttachmentField =
  Title :: string
  Value :: string
  Short :: bool

record Attachment =
  Color :: string
  Fields :: "AttachmentField list"

text \<open>
  Modelled from the spec: the declarations of \<^verbatim>\<open>Config\<close>, \<^verbatim>\<open>Rule\<close> and of the policy
  entries are in another file of the repository. Their fields are the ones
  \<^verbatim>\<open>openstack.go\<close> reads, with the types it reads them at; the spec describes an allow
  rule as a tenant name (resolved to a tenant id), a security-group name and a list of
  port strings, and a policy as two optional source paths with a prefix and a suffix
  message.
\<close>

record Rule =
  rule_Tenant :: string
  rule_TenantID :: string
  rule_SG :: string
  rule_Port :: "string list"

record Policy =
  policy_Policy :: string
  policy_Data :: string
  policy_PrefixMessage :: string
  policy_SuffixMessage :: string

record Config =
  Rules :: "Rule list"
  Policies :: "Policy list"
  DryRun :: bool
  PrefixMessage :: string
  SuffixMessage :: string
  Username :: string
  IconEmoji :: string
  SlackChannel :: string

text \<open>
  The fields of \<^verbatim>\<open>OpenStackSecurityGroupChecker\<close> that evaluation reads or writes.
  The credentials and the Slack client are used only to reach the collaborators.
\<close>

record checker =
  Cfg :: Config
  Attachments :: "Attachment list"
  Projects :: "Project list"

text \<open>
  Errors are values. \<open>NotFoundProject\<close> is the \<^verbatim>\<open>fmt.Errorf("Not found project: %s", id)\<close>
  of tenant resolution, \<open>NetError\<close> an error of package \<^verbatim>\<open>net\<close>, \<open>External\<close> an error
  returned by a collaborator (Redis, the OpenStack API, Slack, the policy engine, the
  JSON encoder), \<open>Wrapped\<close> the result of \<^verbatim>\<open>errors.Wrapf\<close>, and \<open>Panic\<close> a run-time
  panic, which nothing in the program recovers.
\<close>

datatype error =
    NotFoundProject string
  | NetError net_error
  | External string
  | Wrapped string error
  | Panic string

section \<open>Helpers of the checker\<close>

primrec contain :: "string list \<Rightarrow> string \<Rightarrow> bool" where
  "contain [] e = False"
| "contain (a # s) e = (if a = e then True else contain s e)"

primrec contains :: "string list \<Rightarrow> string \<Rightarrow> bool" where
  "contains [] item = False"
| "contains (a # slice') item = (if a = item then True else contains slice' item)"

text \<open>
  \<^verbatim>\<open>getProjectNameFromID\<close> returns the name of the first project with the id, or the
  empty string together with an error.
\<close>

fun getProjectNameFromID :: "string \<Rightarrow> Project list \<Rightarrow> string \<times> error option" where
  "getProjectNameFromID ident [] = ([], Some (NotFoundProject ident))"
| "getProjectNameFromID ident (p # ps) =
     (if project_ID p = ident then (project_Name p, None)
      else getProjectNameFromID ident ps)"

subsection \<open>The allow-rule matcher\<close>

text \<open>
  The inner loop of \<^verbatim>\<open>matchAllowdRule\<close> over the port strings of one allow rule: a
  string the pattern matches allows the rule when the two groups of its first match
  are the decimal texts of the rule's bounds. \<^verbatim>\<open>result[0]\<close> exists whenever
  \<^verbatim>\<open>MatchString\<close> holds, so the branch for \<open>None\<close> is never taken.
\<close>

fun matchPortRange :: "string list \<Rightarrow> SecGroupRule \<Rightarrow> bool" where
  "matchPortRange [] rule = False"
| "matchPortRange (port # ports) rule =
     (if MatchString port then
        (case FindSubmatch port of
           Some (g1, g2) \<Rightarrow>
             if g1 = Itoa (PortRangeMin rule) \<and> g2 = Itoa (PortRangeMax rule) then True
             else matchPortRange ports rule
         | None \<Rightarrow> matchPortRange ports rule)
      else matchPortRange ports rule)"

fun matchAllowdRule :: "Rule list \<Rightarrow> SecGroup \<Rightarrow> SecGroupRule \<Rightarrow> bool" where
  "matchAllowdRule [] sg rule = False"
| "matchAllowdRule (allowdRule # allowdRules) sg rule =
     (if rule_TenantID allowdRule = sg_TenantID sg \<and> rule_SG allowdRule = sg_Name sg then
        (if matchPortRange (rule_Port allowdRule) rule then True
         else if contains (rule_Port allowdRule) (Itoa (PortRangeMin rule))
                 \<and> contains (rule_Port allowdRule) (Itoa (PortRangeMax rule)) then True
         else matchAllowdRule allowdRules sg rule)
      else matchAllowdRule allowdRules sg rule)"

subsection \<open>The IP classifier\<close>

definition privateCIDRs :: "string list" where
  "privateCIDRs = [''10.0.0.0/8'', ''172.16.0.0/12'', ''192.168.0.0/16'']"

text \<open>
  The first loop of \<^verbatim>\<open>isPrivateIP\<close> parses the three ranges and stops at the first
  parse error; the second looks for a block that contains the address.
\<close>

fun parseBlocks :: "string list \<Rightarrow> IPNet list \<Rightarrow> error + IPNet list" where
  "parseBlocks [] privateIPBlocks = Inr privateIPBlocks"
| "parseBlocks (cidr # cidrs) privateIPBlocks =
     (case ParseCIDR cidr of
        Inl err \<Rightarrow> Inl (NetError err)
      | Inr (a, block) \<Rightarrow> parseBlocks cidrs (privateIPBlocks @ [block]))"

fun containsAny :: "IPNet list \<Rightarrow> IP \<Rightarrow> bool" where
  "containsAny [] ip = False"
| "containsAny (block # blocks) ip = (if Contains block ip then True else containsAny blocks ip)"

definition isPrivateIP :: "IP \<Rightarrow> bool \<times> error option" where
  "isPrivateIP ip =
     (if IsLoopback ip \<or> IsLinkLocalUnicast ip \<or> IsLinkLocalMulticast ip then (True, None)
      else
        (case parseBlocks privateCIDRs [] of
           Inl err \<Rightarrow> (True, Some err)
         | Inr privateIPBlocks \<Rightarrow>
             if containsAny privateIPBlocks ip then (True, None) else (False, None)))"

subsection \<open>\<^verbatim>\<open>isFullOpen\<close>\<close>

text \<open>
  The first half of \<^verbatim>\<open>isFullOpen\<close> is the loop labelled \<^verbatim>\<open>IGNOREPORT\<close>, four
  loops deep. Each inner function returns \<open>Inr True\<close> for \<^verbatim>\<open>break IGNOREPORT\<close> (the
  port is reachable), \<open>Inr False\<close> when its loop ran to the end, and \<open>Inl err\<close> for
  \<^verbatim>\<open>return false, err\<close>. \<open>ignorePort\<close> is the loop over the ports; its value is the
  variable \<^verbatim>\<open>ignorePort\<close> when the loop is left.
\<close>

fun boundFIP :: "FloatingIP list \<Rightarrow> Port \<Rightarrow> bool" where
  "boundFIP [] port = False"
| "boundFIP (fip # fips) port =
     (if fip_PortID fip = port_ID port then True else boundFIP fips port)"

fun scanFixedIPs :: "FixedIP list \<Rightarrow> error + bool" where
  "scanFixedIPs [] = Inr False"
| "scanFixedIPs (ip # ips) =
     (case isPrivateIP (ParseIP (IPAddress ip)) of
        (isPrivate, Some err) \<Rightarrow> Inl err
      | (isPrivate, None) \<Rightarrow> if \<not> isPrivate then Inr True else scanFixedIPs ips)"

fun scanSecurityGroups :: "string list \<Rightarrow> SecGroup \<Rightarrow> Port \<Rightarrow> FloatingIP list \<Rightarrow> error + bool" where
  "scanSecurityGroups [] sg port fips = Inr False"
| "scanSecurityGroups (sgid # sgids) sg port fips =
     (if sgid = sg_ID sg then
        (if boundFIP fips port then Inr True
         else
           (case scanFixedIPs (port_FixedIPs port) of
              Inl err \<Rightarrow> Inl err
            | Inr found \<Rightarrow> if found then Inr True else scanSecurityGroups sgids sg port fips))
      else scanSecurityGroups sgids sg port fips)"

fun ignorePort :: "Port list \<Rightarrow> SecGroup \<Rightarrow> FloatingIP list \<Rightarrow> error + bool" where
  "ignorePort [] sg fips = Inr True"
| "ignorePort (port # ports) sg fips =
     (case scanSecurityGroups (port_SecurityGroups port) sg port fips of
        Inl err \<Rightarrow> Inl err
      | Inr found \<Rightarrow> if found then Inr False else ignorePort ports sg fips)"

text \<open>
  The attachment built for a rule that is reported. The standard output and the log
  lines of the program are not part of the model.
\<close>

definition openAccessAttachment :: "string \<Rightarrow> SecGroup \<Rightarrow> SecGroupRule \<Rightarrow> Attachment" where
  "openAccessAttachment projectName sg rule =
     \<lparr>Color = ''#ff6347'',
      Fields =
        [\<lparr>Title = ''Tenant'', Value = projectName, Short = False\<rparr>,
         \<lparr>Title = ''ID'', Value = sg_ID sg, Short = False\<rparr>,
         \<lparr>Title = ''Name'', Value = sg_Name sg, Short = False\<rparr>,
         \<lparr>Title = ''PortRange'',
          Value = Itoa (PortRangeMin rule) @ ''-'' @ Itoa (PortRangeMax rule),
          Short = False\<rparr>]\<rparr>"

text \<open>
  The second half is the loop over the rules of the group. It carries the variable
  \<^verbatim>\<open>isFullOpen\<close> and the checker, whose \<^verbatim>\<open>Attachments\<close> it appends to.
\<close>

fun checkRules ::
  "SecGroupRule list \<Rightarrow> SecGroup \<Rightarrow> string list \<Rightarrow> bool \<Rightarrow> checker \<Rightarrow> bool \<times> checker" where
  "checkRules [] sg allowed_sg isFullOpen c = (isFullOpen, c)"
| "checkRules (rule # rules) sg allowed_sg isFullOpen c =
     (if RemoteIPPrefix rule = ''0.0.0.0/0'' \<and> Protocol rule = ''tcp''
         \<and> Direction rule = ''ingress'' then
        (if \<not> matchAllowdRule (Rules (Cfg c)) sg rule then
           (if contain allowed_sg (sg_ID sg) then checkRules rules sg allowed_sg isFullOpen c
            else
              (case getProjectNameFromID (sg_TenantID sg) (Projects c) of
                 (name, err) \<Rightarrow>
                   (let projectName = (if err \<noteq> None then sg_TenantID sg else name);
                        attachment = openAccessAttachment projectName sg rule
                    in checkRules rules sg allowed_sg True
                         (c\<lparr>Attachments := Attachments c @ [attachment]\<rparr>))))
         else checkRules rules sg allowed_sg isFullOpen c)
      else checkRules rules sg allowed_sg isFullOpen c)"

definition isFullOpen ::
  "checker \<Rightarrow> SecGroup \<Rightarrow> Port list \<Rightarrow> FloatingIP list \<Rightarrow> string list
     \<Rightarrow> (bool \<times> error option) \<times> checker" where
  "isFullOpen c sg ports fips allowed_sg =
     (case ignorePort ports sg fips of
        Inl err \<Rightarrow> ((False, Some err), c)
      | Inr ignore \<Rightarrow>
          if ignore then ((False, None), c)
          else
            (case checkRules (sg_Rules sg) sg allowed_sg False c of
               (isFullOpen, c') \<Rightarrow> ((isFullOpen, None), c')))"

section \<open>The collaborators and the run\<close>

text \<open>
  \<^verbatim>\<open>Run\<close> talks to Redis, to the OpenStack API, to the policy engine and to Slack. What
  they answer is a parameter of the model, the record \<open>world\<close>:
  \<^item> \<open>redis_LLen\<close> and \<open>redis_LRange\<close> answer the two Redis commands on the key
    \<^verbatim>\<open>allowed_sg\<close>;
  \<^item> \<open>os_authenticate\<close> and the four \<open>os_fetch\<close> fields are the results of
    \<^verbatim>\<open>authenticate\<close>, \<^verbatim>\<open>fetchProjects\<close>, \<^verbatim>\<open>fetchPorts\<close>, \<^verbatim>\<open>fetchFloatingIPS\<close> and
    \<^verbatim>\<open>fetchSecurityGroups\<close>;
  \<^item> \<open>json_normalize sg createdAt\<close> is \<^verbatim>\<open>json.Marshal\<close> of the group with its
    creation time in nanoseconds followed by \<^verbatim>\<open>json.Unmarshal\<close> into an untyped
    value of type \<open>'v\<close>;
  \<^item> a prepared query is the list of paths it was loaded from (its text is the
    constant \<^verbatim>\<open>x = data.example.allow\<close>); \<open>rego_PrepareForEval\<close> may refuse the
    paths, and \<open>rego_Eval\<close> returns the binding of \<^verbatim>\<open>x\<close> in each result;
  \<^item> \<open>slack_PostMessage\<close> delivers one message or fails.
  Each collaborator answers the same request in the same way throughout a run. The
  state of a run is the checker together with two traces: the messages Slack
  accepted and the evaluations requested of the policy engine.
\<close>

datatype binding = BoolValue bool | OtherValue

record message =
  msg_channel :: string
  msg_text :: string
  msg_attachments :: "Attachment list"
  msg_username :: string
  msg_iconEmoji :: string

record 'v world =
  redis_LLen :: "error + int"
  redis_LRange :: "int \<Rightarrow> error + string list"
  os_authenticate :: "error option"
  os_fetchProjects :: "error + Project list"
  os_fetchPorts :: "error + Port list"
  os_fetchFloatingIPS :: "error + FloatingIP list"
  os_fetchSecurityGroups :: "error + SecGroup list"
  json_normalize :: "SecGroup \<Rightarrow> 64 word \<Rightarrow> error + 'v"
  rego_PrepareForEval :: "string list \<Rightarrow> error option"
  rego_Eval :: "string list \<Rightarrow> 'v \<Rightarrow> error + binding list"
  slack_PostMessage :: "message \<Rightarrow> error option"

record state =
  chk :: checker
  sent :: "message list"
  evals :: "(string list \<times> SecGroup) list"

subsection \<open>\<^verbatim>\<open>postWarning\<close>\<close>

definition postMessage ::
  "'v world \<Rightarrow> Config \<Rightarrow> string \<Rightarrow> Attachment list \<Rightarrow> state \<Rightarrow> error option \<times> state" where
  "postMessage w cfg text' attachments st =
     (let m = \<lparr>msg_channel = SlackChannel cfg, msg_text = text', msg_attachments = attachments,
               msg_username = Username cfg, msg_iconEmoji = IconEmoji cfg\<rparr>
      in case slack_PostMessage w m of
           Some err \<Rightarrow> (Some err, st)
         | None \<Rightarrow> (None, st\<lparr>sent := sent st @ [m]\<rparr>))"

fun postAttachments ::
  "'v world \<Rightarrow> Config \<Rightarrow> Attachment list \<Rightarrow> state \<Rightarrow> error option \<times> state" where
  "postAttachments w cfg [] st = (None, st)"
| "postAttachments w cfg (item # items) st =
     (case postMessage w cfg [] [item] st of
        (Some err, st') \<Rightarrow> (Some (Wrapped ''Failed to post attachments'' err), st')
      | (None, st') \<Rightarrow> postAttachments w cfg items st')"

definition postWarning ::
  "'v world \<Rightarrow> Attachment list \<Rightarrow> string \<Rightarrow> string \<Rightarrow> state \<Rightarrow> error option \<times> state" where
  "postWarning w attachments prefix suffix st =
     (let cfg = Cfg (chk st) in
      case postMessage w cfg prefix [] st of
        (Some err, st1) \<Rightarrow> (Some (Wrapped ''Failed to post prefix message'' err), st1)
      | (None, st1) \<Rightarrow>
          (case postAttachments w cfg attachments st1 of
             (Some err, st2) \<Rightarrow> (Some err, st2)
           | (None, st2) \<Rightarrow>
               (case postMessage w cfg suffix [] st2 of
                  (Some err, st3) \<Rightarrow> (Some (Wrapped ''Failed to post suffix message'' err), st3)
                | (None, st3) \<Rightarrow> (None, st3))))"

subsection \<open>\<^verbatim>\<open>matchPolicy\<close>\<close>

text \<open>
  A call of \<^verbatim>\<open>query.Eval\<close>: the engine gives its answer, and the call is entered in
  the trace of evaluations together with the group it is about. Nothing else writes
  that trace.
\<close>

definition Eval ::
  "'v world \<Rightarrow> string list \<Rightarrow> SecGroup \<Rightarrow> 'v \<Rightarrow> state
     \<Rightarrow> (error + binding list) \<times> state" where
  "Eval w query sg input st =
     (rego_Eval w query input, st\<lparr>evals := evals st @ [(query, sg)]\<rparr>)"

definition ruleLine :: "SecGroupRule \<Rightarrow> string" where
  "ruleLine rule =
     Direction rule @ '', IP Range: '' @ RemoteIPPrefix rule @ '', Port Range: ''
       @ (Itoa (PortRangeMin rule) @ ''-'' @ Itoa (PortRangeMax rule)) @ [CHR 0x0A]"

definition policyAttachment :: "string \<Rightarrow> SecGroup \<Rightarrow> Attachment" where
  "policyAttachment projectName sg =
     \<lparr>Color = ''#ff6347'',
      Fields =
        [\<lparr>Title = ''Name'', Value = sg_Name sg, Short = False\<rparr>,
         \<lparr>Title = ''Tenant'', Value = projectName, Short = True\<rparr>,
         \<lparr>Title = ''ID'', Value = sg_ID sg, Short = True\<rparr>,
         \<lparr>Title = ''Created'', Value = LocalString (sg_CreatedAt sg), Short = False\<rparr>]
        @ [\<lparr>Title = ''Rules'', Value = concat (map ruleLine (sg_Rules sg)), Short = False\<rparr>]\<rparr>"

text \<open>
  In \<^verbatim>\<open>matchPolicy\<close> the name returned by \<^verbatim>\<open>getProjectNameFromID\<close> is used as it is:
  on a miss the error is set to nil and the name stays the empty string the lookup
  returned. The type assertion \<^verbatim>\<open>.(bool)\<close> panics on a binding that is not a boolean.
\<close>

definition matchPolicy ::
  "'v world \<Rightarrow> string list \<Rightarrow> SecGroup \<Rightarrow> state \<Rightarrow> (bool \<times> error option) \<times> state" where
  "matchPolicy w query sg st =
     (case json_normalize w sg (UnixNano (sg_CreatedAt sg)) of
        Inl err \<Rightarrow> ((False, Some err), st)
      | Inr input \<Rightarrow>
          (case Eval w query sg input st of
             (Inl err, st1) \<Rightarrow> ((False, Some err), st1)
           | (Inr rs, st1) \<Rightarrow>
               (case rs of
                  [] \<Rightarrow> ((False, None), st1)
                | OtherValue # rest \<Rightarrow> ((False, Some (Panic ''interface conversion'')), st1)
                | BoolValue x # rest \<Rightarrow>
                    if x then
                      (case getProjectNameFromID (sg_TenantID sg) (Projects (chk st1)) of
                         (projectName, err) \<Rightarrow>
                           ((True, None),
                            st1\<lparr>chk := (chk st1)\<lparr>Attachments :=
                                   Attachments (chk st1) @ [policyAttachment projectName sg]\<rparr>\<rparr>))
                    else ((False, None), st1))))"

subsection \<open>\<^verbatim>\<open>Run\<close>\<close>

text \<open>The loop of lines 79 to 85: the last project whose name is the rule's tenant gives the id.\<close>

fun resolveTenantID :: "Project list \<Rightarrow> Rule \<Rightarrow> Rule" where
  "resolveTenantID [] rule = rule"
| "resolveTenantID (p # ps) rule =
     (if rule_Tenant rule = project_Name p
      then resolveTenantID ps (rule\<lparr>rule_TenantID := project_ID p\<rparr>)
      else resolveTenantID ps rule)"

text \<open>The loop of lines 103 to 111 over the security groups.\<close>

fun openAccessLoop ::
  "SecGroup list \<Rightarrow> Port list \<Rightarrow> FloatingIP list \<Rightarrow> string list \<Rightarrow> bool \<Rightarrow> checker
     \<Rightarrow> (error + bool) \<times> checker" where
  "openAccessLoop [] ports fips allowed_sg existNoguardSG c = (Inr existNoguardSG, c)"
| "openAccessLoop (sg # sgs) ports fips allowed_sg existNoguardSG c =
     (case isFullOpen c sg ports fips allowed_sg of
        ((b, Some err), c') \<Rightarrow> (Inl err, c')
      | ((b, None), c') \<Rightarrow>
          openAccessLoop sgs ports fips allowed_sg (if b then True else existNoguardSG) c')"

text \<open>Lines 101 to 125: the open-access pass and its notification.\<close>

definition openAccessPhase ::
  "'v world \<Rightarrow> SecGroup list \<Rightarrow> Port list \<Rightarrow> FloatingIP list \<Rightarrow> string list \<Rightarrow> state
     \<Rightarrow> error option \<times> state" where
  "openAccessPhase w securityGroups ports fips allowed_sg st =
     (case openAccessLoop securityGroups ports fips allowed_sg False (chk st) of
        (Inl err, c') \<Rightarrow> (Some err, st\<lparr>chk := c'\<rparr>)
      | (Inr existNoguardSG, c') \<Rightarrow>
          (let st1 = st\<lparr>chk := c'\<rparr> in
           if existNoguardSG \<and> \<not> DryRun (Cfg c') then
             (case postWarning w (Attachments c') (PrefixMessage (Cfg c'))
                     (SuffixMessage (Cfg c')) st1 of
                (Some err, st2) \<Rightarrow> (Some (Wrapped ''Failed to post warning'' err), st2)
              | (None, st2) \<Rightarrow> (None, st2))
           else (None, st1)))"

text \<open>The loop of lines 149 to 161 over the security groups, for one prepared query.\<close>

fun policyGroupsLoop ::
  "'v world \<Rightarrow> string list \<Rightarrow> SecGroup list \<Rightarrow> string list \<Rightarrow> bool \<Rightarrow> state
     \<Rightarrow> (error + bool) \<times> state" where
  "policyGroupsLoop w query [] allowed_sg existsSGMatchedPolicy st =
     (Inr existsSGMatchedPolicy, st)"
| "policyGroupsLoop w query (sg # sgs) allowed_sg existsSGMatchedPolicy st =
     (if contain allowed_sg (sg_ID sg)
      then policyGroupsLoop w query sgs allowed_sg existsSGMatchedPolicy st
      else
        (case matchPolicy w query sg st of
           ((match, Some err), st') \<Rightarrow> (Inl err, st')
         | ((match, None), st') \<Rightarrow>
             policyGroupsLoop w query sgs allowed_sg
               (if match then True else existsSGMatchedPolicy) st'))"

definition policyPaths :: "Policy \<Rightarrow> string list" where
  "policyPaths policy =
     (if policy_Policy policy \<noteq> [] then [policy_Policy policy] else [])
     @ (if policy_Data policy \<noteq> [] then [policy_Data policy] else [])"

text \<open>The loop of lines 131 to 174 over the configured policies.\<close>

fun policiesLoop ::
  "'v world \<Rightarrow> Policy list \<Rightarrow> SecGroup list \<Rightarrow> string list \<Rightarrow> state
     \<Rightarrow> error option \<times> state" where
  "policiesLoop w [] securityGroups allowed_sg st = (None, st)"
| "policiesLoop w (policy # policies) securityGroups allowed_sg st =
     (case rego_PrepareForEval w (policyPaths policy) of
        Some err \<Rightarrow> (Some err, st)
      | None \<Rightarrow>
          (case policyGroupsLoop w (policyPaths policy) securityGroups allowed_sg False st of
             (Inl err, st1) \<Rightarrow> (Some err, st1)
           | (Inr existsSGMatchedPolicy, st1) \<Rightarrow>
               if existsSGMatchedPolicy \<and> \<not> DryRun (Cfg (chk st1)) then
                 (case postWarning w (Attachments (chk st1)) (policy_PrefixMessage policy)
                         (policy_SuffixMessage policy) st1 of
                    (Some err, st2) \<Rightarrow> (Some (Wrapped ''Failed to post warning'' err), st2)
                  | (None, st2) \<Rightarrow> policiesLoop w policies securityGroups allowed_sg st2)
               else policiesLoop w policies securityGroups allowed_sg st1))"

text \<open>Lines 127 to 174: the accumulator is emptied, then the policies are evaluated.\<close>

definition policyPhase ::
  "'v world \<Rightarrow> SecGroup list \<Rightarrow> string list \<Rightarrow> state \<Rightarrow> error option \<times> state" where
  "policyPhase w securityGroups allowed_sg st =
     policiesLoop w (Policies (Cfg (chk st))) securityGroups allowed_sg
       (st\<lparr>chk := (chk st)\<lparr>Attachments := []\<rparr>\<rparr>)"

definition Run :: "'v world \<Rightarrow> state \<Rightarrow> error option \<times> state" where
  "Run w st =
     (case redis_LLen w of
        Inl err \<Rightarrow> (Some err, st)
      | Inr len \<Rightarrow>
     (case redis_LRange w len of
        Inl err \<Rightarrow> (Some err, st)
      | Inr allowed_sg \<Rightarrow>
     (case os_authenticate w of
        Some err \<Rightarrow> (Some (Wrapped ''Failed to authenticate OpenStack API'' err), st)
      | None \<Rightarrow>
     (case os_fetchProjects w of
        Inl err \<Rightarrow>
          (Some (Wrapped ''Failed to fetch projects'' err), st\<lparr>chk := (chk st)\<lparr>Projects := []\<rparr>\<rparr>)
      | Inr ps \<Rightarrow>
     (let c1 = (chk st)\<lparr>Projects := ps\<rparr>;
          c2 = c1\<lparr>Cfg := (Cfg c1)\<lparr>Rules := map (resolveTenantID ps) (Rules (Cfg c1))\<rparr>\<rparr>;
          st1 = st\<lparr>chk := c2\<rparr>
      in
     (case os_fetchPorts w of
        Inl err \<Rightarrow> (Some (Wrapped ''Failed to fetch ports'' err), st1)
      | Inr ports \<Rightarrow>
     (case os_fetchFloatingIPS w of
        Inl err \<Rightarrow> (Some (Wrapped ''Failed to fetch fips'' err), st1)
      | Inr fips \<Rightarrow>
     (case os_fetchSecurityGroups w of
        Inl err \<Rightarrow> (Some (Wrapped ''Failed to security groups'' err), st1)
      | Inr securityGroups \<Rightarrow>
     (case openAccessPhase w securityGroups ports fips allowed_sg st1 of
        (Some err, st2) \<Rightarrow> (Some err, st2)
      | (None, st2) \<Rightarrow> policyPhase w securityGroups allowed_sg st2)))))))))"

section \<open>Vocabulary of the specification\<close>

text \<open>
  The predicates of this section are not transcribed from the program: they say, in
  the words of the specification, what the theorems below compare the program with.
\<close>

text \<open>
  An IPv4 address \<open>a.b.c.d\<close> reaches the classifier either as the four bytes or in
  the 16-byte form that \<^verbatim>\<open>ParseIP\<close> returns.
\<close>

definition isQuad :: "IP \<Rightarrow> byte \<Rightarrow> byte \<Rightarrow> byte \<Rightarrow> byte \<Rightarrow> bool" where
  "isQuad ip a b c d = (ip = [a, b, c, d] \<or> ip = IPv4 a b c d)"

text \<open>The reserved ranges 10.0.0.0/8, 172.16.0.0/12 and 192.168.0.0/16.\<close>

definition inPrivateRange :: "byte \<Rightarrow> byte \<Rightarrow> byte \<Rightarrow> byte \<Rightarrow> bool" where
  "inPrivateRange a b c d =
     (a = 10 \<or> (a = 172 \<and> 16 \<le> b \<and> b \<le> 31) \<or> (a = 192 \<and> b = 168))"

text \<open>
  IPv4 loopback 127.0.0.0/8, link-local unicast 169.254.0.0/16 and link-local
  multicast 224.0.0.0/24.
\<close>

definition inLocalRange :: "byte \<Rightarrow> byte \<Rightarrow> byte \<Rightarrow> byte \<Rightarrow> bool" where
  "inLocalRange a b c d = (a = 127 \<or> (a = 169 \<and> b = 254) \<or> (a = 224 \<and> b = 0 \<and> c = 0))"

text \<open>An address string classifies as public when the classifier's verdict is not private.\<close>

definition classifiesPublic :: "string \<Rightarrow> bool" where
  "classifiesPublic addr = (\<not> fst (isPrivateIP (ParseIP addr)))"

text \<open>
  Exposure, as the specification defines it: some port carries the group's id and
  either a floating IP is bound to that port or one of its fixed IPs is public.
\<close>

definition exposed :: "SecGroup \<Rightarrow> Port list \<Rightarrow> FloatingIP list \<Rightarrow> bool" where
  "exposed sg ports fips =
     (\<exists>port \<in> set ports.
        sg_ID sg \<in> set (port_SecurityGroups port)
        \<and> ((\<exists>fip \<in> set fips. fip_PortID fip = port_ID port)
           \<or> (\<exists>ip \<in> set (port_FixedIPs port). classifiesPublic (IPAddress ip))))"

definition violationCandidate :: "SecGroupRule \<Rightarrow> bool" where
  "violationCandidate rule =
     (Protocol rule = ''tcp'' \<and> Direction rule = ''ingress''
      \<and> RemoteIPPrefix rule = ''0.0.0.0/0'')"

text \<open>
  The tenant label of the specification: the name of the first project with the
  tenant's id, and the id itself when there is none.
\<close>

definition tenantLabel :: "Project list \<Rightarrow> string \<Rightarrow> string" where
  "tenantLabel ps tenantID =
     (case find (\<lambda>p. project_ID p = tenantID) ps of
        Some p \<Rightarrow> project_Name p
      | None \<Rightarrow> tenantID)"

text \<open>
  A candidate is suppressed when the static matcher allows it or the group's id is on
  the dynamic allow-list; the findings of a group are one attachment for every
  candidate that is not suppressed, in the order of the rules.
\<close>

definition suppressed :: "Config \<Rightarrow> SecGroup \<Rightarrow> string list \<Rightarrow> SecGroupRule \<Rightarrow> bool" where
  "suppressed cfg sg allowed_sg rule =
     (matchAllowdRule (Rules cfg) sg rule \<or> sg_ID sg \<in> set allowed_sg)"

definition reportedRules :: "Config \<Rightarrow> SecGroup \<Rightarrow> string list \<Rightarrow> SecGroupRule list" where
  "reportedRules cfg sg allowed_sg =
     filter (\<lambda>rule. violationCandidate rule \<and> \<not> suppressed cfg sg allowed_sg rule) (sg_Rules sg)"

definition openAccessFindings ::
  "Config \<Rightarrow> Project list \<Rightarrow> SecGroup \<Rightarrow> string list \<Rightarrow> Attachment list" where
  "openAccessFindings cfg ps sg allowed_sg =
     map (openAccessAttachment (tenantLabel ps (sg_TenantID sg)) sg)
       (reportedRules cfg sg allowed_sg)"

text \<open>The findings of one pass over the groups: those of the exposed groups, in order.\<close>

definition passFindings ::
  "Config \<Rightarrow> Project list \<Rightarrow> SecGroup list \<Rightarrow> Port list \<Rightarrow> FloatingIP list \<Rightarrow> string list
     \<Rightarrow> Attachment list" where
  "passFindings cfg ps sgs ports fips allowed_sg =
     concat (map (\<lambda>sg. if exposed sg ports fips then openAccessFindings cfg ps sg allowed_sg else [])
       sgs)"

text \<open>
  The port strings of an allow rule, as the specification's data model has them: each
  is a literal port number, or a range expression \<open>min-max\<close> of two port numbers.
\<close>

definition isPortNumber :: "string \<Rightarrow> bool" where
  "isPortNumber p = (p \<noteq> [] \<and> list_all isDecDigit p)"

definition isPortRange :: "string \<Rightarrow> bool" where
  "isPortRange p =
     (case dropWhile isDecDigit p of
        [] \<Rightarrow> False
      | c # r \<Rightarrow> c = CHR ''-'' \<and> takeWhile isDecDigit p \<noteq> [] \<and> isPortNumber r)"

definition wellFormedPorts :: "Rule list \<Rightarrow> bool" where
  "wellFormedPorts allowdRules =
     (\<forall>allowdRule \<in> set allowdRules. \<forall>p \<in> set (rule_Port allowdRule).
        isPortNumber p \<or> isPortRange p)"

text \<open>The range expression whose endpoints are exactly the two bounds of a rule.\<close>

definition rangeExpression :: "int \<Rightarrow> int \<Rightarrow> string" where
  "rangeExpression lo hi = Itoa lo @ ''-'' @ Itoa hi"

text \<open>
  The matcher of the specification: some entry for the group's tenant and name holds
  the range expression of the rule's bounds, or holds both bounds as literal entries.
\<close>

definition allowedBySpec :: "Rule list \<Rightarrow> SecGroup \<Rightarrow> SecGroupRule \<Rightarrow> bool" where
  "allowedBySpec allowdRules sg rule =
     (\<exists>allowdRule \<in> set allowdRules.
        rule_TenantID allowdRule = sg_TenantID sg \<and> rule_SG allowdRule = sg_Name sg
        \<and> (rangeExpression (PortRangeMin rule) (PortRangeMax rule) \<in> set (rule_Port allowdRule)
           \<or> (Itoa (PortRangeMin rule) \<in> set (rule_Port allowdRule)
              \<and> Itoa (PortRangeMax rule) \<in> set (rule_Port allowdRule))))"

text \<open>The ways of cutting a list in two.\<close>

fun cuts :: "'a list \<Rightarrow> ('a list \<times> 'a list) list" where
  "cuts [] = [([], [])]"
| "cuts (x # xs) = ([], x # xs) # map (\<lambda>(l, r). (x # l, r)) (cuts xs)"

text \<open>
  A port string has the range expression of two bounds at its first hyphen: the
  bounds are not negative, and the string is the range expression between a part
  \<open>pre\<close> that has no hyphen and does not end with a digit, and a part \<open>post\<close> that
  does not begin with a digit. Either part may be empty, so the range expression
  itself is such a string, and so are \<^verbatim>\<open>x80-80y\<close> and \<^verbatim>\<open>80-443-8080\<close>.
\<close>

definition firstRangeIs :: "string \<Rightarrow> int \<Rightarrow> int \<Rightarrow> bool" where
  "firstRangeIs p lo hi =
     (0 \<le> lo \<and> 0 \<le> hi
      \<and> (\<exists>(pre, rest) \<in> set (cuts p). \<exists>(mid, post) \<in> set (cuts rest).
            mid = rangeExpression lo hi
            \<and> CHR ''-'' \<notin> set pre
            \<and> (pre = [] \<or> \<not> isDecDigit (last pre))
            \<and> (post = [] \<or> \<not> isDecDigit (hd post))))"

text \<open>
  The messages of one notification batch: the prefix, one message for every finding,
  the suffix.
\<close>

definition slackMessage :: "Config \<Rightarrow> string \<Rightarrow> Attachment list \<Rightarrow> message" where
  "slackMessage cfg t as =
     \<lparr>msg_channel = SlackChannel cfg, msg_text = t, msg_attachments = as,
      msg_username = Username cfg, msg_iconEmoji = IconEmoji cfg\<rparr>"

definition batchMessages :: "Config \<Rightarrow> Attachment list \<Rightarrow> string \<Rightarrow> string \<Rightarrow> message list" where
  "batchMessages cfg findings prefix suffix =
     slackMessage cfg prefix []
     # map (\<lambda>item. slackMessage cfg [] [item]) findings
     @ [slackMessage cfg suffix []]"

text \<open>The group a finding is about and the tenant label it shows, read off its fields.\<close>

definition fieldValue :: "string \<Rightarrow> Attachment \<Rightarrow> string" where
  "fieldValue title a =
     (case find (\<lambda>f. Title f = title) (Fields a) of
        Some f \<Rightarrow> Value f
      | None \<Rightarrow> [])"

text \<open>
  The verdict of the external predicate on a group, when nothing fails: the first
  result binds \<^verbatim>\<open>x\<close> to true.
\<close>

definition policyVerdict :: "'v world \<Rightarrow> string list \<Rightarrow> SecGroup \<Rightarrow> bool" where
  "policyVerdict w query sg =
     (case json_normalize w sg (UnixNano (sg_CreatedAt sg)) of
        Inl err \<Rightarrow> False
      | Inr input \<Rightarrow>
          (case rego_Eval w query input of
             Inl err \<Rightarrow> False
           | Inr rs \<Rightarrow> (case rs of BoolValue True # rest \<Rightarrow> True | _ \<Rightarrow> False)))"

text \<open>
  The evaluations one policy asks for, one for every group that is not on the dynamic
  allow-list, and the findings it produces, one for every such group the predicate
  holds of; both in the order of the groups. The label of a finding is the name
  \<^verbatim>\<open>matchPolicy\<close> got from \<^verbatim>\<open>getProjectNameFromID\<close>.
\<close>

definition policyQueries :: "Policy \<Rightarrow> SecGroup list \<Rightarrow> string list \<Rightarrow> (string list \<times> SecGroup) list" where
  "policyQueries policy sgs allowed_sg =
     map (\<lambda>sg. (policyPaths policy, sg)) (filter (\<lambda>sg. sg_ID sg \<notin> set allowed_sg) sgs)"

definition policyFindings ::
  "'v world \<Rightarrow> Project list \<Rightarrow> SecGroup list \<Rightarrow> string list \<Rightarrow> Policy \<Rightarrow> Attachment list" where
  "policyFindings w ps sgs allowed_sg policy =
     map (\<lambda>sg. policyAttachment (fst (getProjectNameFromID (sg_TenantID sg) ps)) sg)
       (filter (\<lambda>sg. sg_ID sg \<notin> set allowed_sg \<and> policyVerdict w (policyPaths policy) sg) sgs)"

text \<open>
  The findings of a list of evaluations: one for every evaluation the predicate
  holds of, in the order of the evaluations.
\<close>

definition evaluationFindings ::
  "'v world \<Rightarrow> Project list \<Rightarrow> (string list \<times> SecGroup) list \<Rightarrow> Attachment list" where
  "evaluationFindings w ps E =
     map (\<lambda>(query, sg). policyAttachment (fst (getProjectNameFromID (sg_TenantID sg) ps)) sg)
       (filter (\<lambda>(query, sg). policyVerdict w query sg) E)"

text \<open>
  What the encoder and the engine have to say about a group: the encoder's error, or
  the engine's answer to the query on the encoded group. Two worlds give the same
  answers off the allow-list when they do so for every configured policy and every
  group whose id is not on the dynamic allow-list; about the groups on the list they
  may differ in any way.
\<close>

definition groupAnswer ::
  "'v world \<Rightarrow> string list \<Rightarrow> SecGroup \<Rightarrow> error + (error + binding list)" where
  "groupAnswer w query sg =
     (case json_normalize w sg (UnixNano (sg_CreatedAt sg)) of
        Inl err \<Rightarrow> Inl err
      | Inr input \<Rightarrow> Inr (rego_Eval w query input))"

definition sameAnswersOffList ::
  "'v world \<Rightarrow> 'v world \<Rightarrow> Policy list \<Rightarrow> SecGroup list \<Rightarrow> string list \<Rightarrow> bool" where
  "sameAnswersOffList w w' policies sgs allowed_sg =
     (\<forall>policy \<in> set policies. \<forall>sg \<in> set sgs.
        sg_ID sg \<notin> set allowed_sg \<longrightarrow>
          groupAnswer w' (policyPaths policy) sg = groupAnswer w (policyPaths policy) sg)"

text \<open>
  The batch posted for the policy at position \<open>i\<close>: none in a dry run or when the
  policy has no finding; otherwise the findings of the policies at positions
  \<open>0, \<dots>, i\<close>, in that order.
\<close>

definition policyBatch ::
  "'v world \<Rightarrow> Config \<Rightarrow> Project list \<Rightarrow> SecGroup list \<Rightarrow> string list \<Rightarrow> Policy list \<Rightarrow> nat
     \<Rightarrow> message list" where
  "policyBatch w cfg ps sgs allowed_sg policies i =
     (if DryRun cfg \<or> policyFindings w ps sgs allowed_sg (policies ! i) = [] then []
      else batchMessages cfg
             (concat (map (policyFindings w ps sgs allowed_sg) (take (Suc i) policies)))
             (policy_PrefixMessage (policies ! i)) (policy_SuffixMessage (policies ! i)))"

section \<open>Example data\<close>

definition example_unparseable :: FixedIP where
  "example_unparseable = \<lparr>IPAddress = ''not-an-ip''\<rparr>"

definition example_rule :: "int \<Rightarrow> int \<Rightarrow> SecGroupRule" where
  "example_rule lo hi =
     \<lparr>Direction = ''ingress'', Protocol = ''tcp'', RemoteIPPrefix = ''0.0.0.0/0'',
      PortRangeMin = lo, PortRangeMax = hi\<rparr>"

definition example_sg :: SecGroup where
  "example_sg =
     \<lparr>sg_ID = ''sg-1'', sg_Name = ''web'', sg_TenantID = ''t1'',
      sg_Rules = [example_rule 22 22,
                  \<lparr>Direction = ''egress'', Protocol = ''tcp'', RemoteIPPrefix = ''0.0.0.0/0'',
                   PortRangeMin = 1, PortRangeMax = 65535\<rparr>,
                  example_rule 80 443],
      sg_CreatedAt = \<lparr>UnixNano = 1600000000000000000, LocalString = ''2020-09-13 12:26:40 +0000 UTC''\<rparr>\<rparr>"

definition example_config :: Config where
  "example_config =
     \<lparr>Rules = [\<lparr>rule_Tenant = ''Alpha'', rule_TenantID = ''t1'', rule_SG = ''web'',
                rule_Port = [''80'', ''443'']\<rparr>],
      Policies = [],
      DryRun = False, PrefixMessage = ''open groups:'', SuffixMessage = ''please fix'',
      Username = ''sg_inspector'', IconEmoji = '':warning:'', SlackChannel = ''#alerts''\<rparr>"

definition example_checker :: checker where
  "example_checker =
     \<lparr>Cfg = example_config, Attachments = [],
      Projects = [\<lparr>project_ID = ''t1'', project_Name = ''Alpha''\<rparr>]\<rparr>"

definition example_port :: "string \<Rightarrow> Port" where
  "example_port addr =
     \<lparr>port_ID = ''p1'', port_SecurityGroups = [''sg-0'', ''sg-1''],
      port_FixedIPs = [\<lparr>IPAddress = ''10.0.0.5''\<rparr>, \<lparr>IPAddress = addr\<rparr>]\<rparr>"

definition example_unattached :: SecGroup where
  "example_unattached = example_sg\<lparr>sg_ID := ''sg-9''\<rparr>"

definition example_finding :: Attachment where
  "example_finding =
     \<lparr>Color = ''#ff6347'',
      Fields =
        [\<lparr>Title = ''Tenant'', Value = ''Alpha'', Short = False\<rparr>,
         \<lparr>Title = ''ID'', Value = ''sg-1'', Short = False\<rparr>,
         \<lparr>Title = ''Name'', Value = ''web'', Short = False\<rparr>,
         \<lparr>Title = ''PortRange'', Value = ''22-22'', Short = False\<rparr>]\<rparr>"

definition example_allow :: "string list \<Rightarrow> Rule list" where
  "example_allow ps =
     [\<lparr>rule_Tenant = ''Beta'', rule_TenantID = ''t2'', rule_SG = ''web'', rule_Port = [''22'']\<rparr>,
      \<lparr>rule_Tenant = ''Alpha'', rule_TenantID = ''t1'', rule_SG = ''web'', rule_Port = ps\<rparr>]"

definition example_other :: SecGroup where
  "example_other = example_sg\<lparr>sg_ID := ''sg-2'', sg_Name := ''db'', sg_TenantID := ''t7''\<rparr>"

definition example_groups :: "SecGroup list" where
  "example_groups = [example_sg, example_unattached, example_other]"

definition example_policies :: "Policy list" where
  "example_policies =
     [\<lparr>policy_Policy = ''a.rego'', policy_Data = [],
       policy_PrefixMessage = ''policy A'', policy_SuffixMessage = ''end of A''\<rparr>,
      \<lparr>policy_Policy = ''b.rego'', policy_Data = ''b.json'',
       policy_PrefixMessage = ''policy B'', policy_SuffixMessage = ''end of B''\<rparr>]"

text \<open>
  A world in which every collaborator answers: the first policy holds of the group
  \<^verbatim>\<open>sg-1\<close> only, the second of every group.
\<close>

definition example_world :: "string world" where
  "example_world =
     \<lparr>redis_LLen = Inr 1,
      redis_LRange = (\<lambda>n. Inr [''sg-9'']),
      os_authenticate = None,
      os_fetchProjects = Inr [\<lparr>project_ID = ''t1'', project_Name = ''Alpha''\<rparr>],
      os_fetchPorts = Inr [example_port ''203.0.113.5''],
      os_fetchFloatingIPS = Inr [],
      os_fetchSecurityGroups = Inr example_groups,
      json_normalize = (\<lambda>sg t. Inr (sg_ID sg)),
      rego_PrepareForEval = (\<lambda>paths. None),
      rego_Eval = (\<lambda>query input. Inr [BoolValue (input = ''sg-1'' \<or> query = [''b.rego'', ''b.json''])]),
      slack_PostMessage = (\<lambda>m. None)\<rparr>"

definition example_state :: state where
  "example_state =
     \<lparr>chk = example_checker\<lparr>Cfg := example_config\<lparr>Policies := example_policies\<rparr>,
                             Attachments := [example_finding]\<rparr>,
      sent = [], evals = []\<rparr>"

definition example_state_no_projects :: state where
  "example_state_no_projects =
     \<lparr>chk = example_checker\<lparr>Projects := []\<rparr>, sent = [], evals = []\<rparr>"

text \<open>An engine that fails on the group \<^verbatim>\<open>sg-9\<close> and answers as the one above otherwise.\<close>

definition example_engine_down :: "string list \<Rightarrow> string \<Rightarrow> error + binding list" where
  "example_engine_down query input =
     (if input = ''sg-9'' then Inl (External ''engine down'')
      else rego_Eval example_world query input)"

section \<open>Properties of the IP classifier\<close>

lemma and255: "(a :: 8 word) AND 255 = a"
proof -
  have "(255 :: 8 word) = - 1"
    by simp
  then show ?thesis
    by (simp only: and.right_neutral)
qed

lemma second_octet_172:
  fixes b :: "8 word"
  assumes "16 \<le> b" "b \<le> 31"
  shows "b AND 0xF0 = 0x10"
proof -
  have all: "\<forall>k \<in> {16 ..< 32}. (of_nat k :: 8 word) AND 0xF0 = 0x10"
    by code_simp
  have "16 \<le> unat b" "unat b \<le> 31"
    using assms by (simp_all add: word_le_nat_alt)
  then have "unat b \<in> {16 ..< 32}"
    by simp
  with all have "(of_nat (unat b) :: 8 word) AND 0xF0 = 0x10"
    by blast
  then show ?thesis
    by simp
qed

text \<open>The three hard-coded ranges always parse, to these three blocks.\<close>

lemma privateBlocks:
  "parseBlocks privateCIDRs [] =
     Inr [\<lparr>net_IP = [10, 0, 0, 0], net_Mask = [255, 0, 0, 0]\<rparr>,
          \<lparr>net_IP = [172, 16, 0, 0], net_Mask = [255, 240, 0, 0]\<rparr>,
          \<lparr>net_IP = [192, 168, 0, 0], net_Mask = [255, 255, 0, 0]\<rparr>]"
  by code_simp

lemma isPrivateIP_no_error: "snd (isPrivateIP ip) = None"
  by (simp add: isPrivateIP_def privateBlocks)

lemma To4_quad: "To4 [a, b, c, d] = [a, b, c, d]"
  by (simp add: To4_def IPv4len_def)

lemma To4_IPv4: "To4 (IPv4 a b c d) = [a, b, c, d]"
  by (simp add: To4_def IPv4_def v4InV6Prefix_def IPv4len_def IPv6len_def isZeros_def)

lemma To4_isQuad: "isQuad ip a b c d \<Longrightarrow> To4 ip = [a, b, c, d]"
  by (auto simp add: isQuad_def To4_quad To4_IPv4)

lemma upt4: "[0 ..< 4] = [0, 1, 2, 3::nat]"
  by code_simp

lemma Contains_v4:
  assumes "To4 ip = [a, b, c, d]"
  shows "Contains \<lparr>net_IP = [n0, n1, n2, n3], net_Mask = [m0, m1, m2, m3]\<rparr> ip
         = (n0 AND m0 = a AND m0 \<and> n1 AND m1 = b AND m1
            \<and> n2 AND m2 = c AND m2 \<and> n3 AND m3 = d AND m3)"
  using assms
  by (simp add: Contains_def networkNumberAndMask_def To4_quad IPv4len_def upt4)

text \<open>What the classifier computes on an IPv4 address, in either form.\<close>

lemma isPrivateIP_To4:
  assumes "To4 ip = [a, b, c, d]"
  shows "isPrivateIP ip =
          (a = 127 \<or> (a = 169 \<and> b = 254) \<or> (a = 224 \<and> b = 0 \<and> c = 0)
           \<or> a = 10 \<or> (a = 172 \<and> b AND 0xF0 = 0x10) \<or> (a = 192 \<and> b = 168), None)"
proof -
  have sp: "IsLoopback ip = (a = 127)" "IsLinkLocalUnicast ip = (a = 169 \<and> b = 254)"
    "IsLinkLocalMulticast ip = (a = 224 \<and> b = 0 \<and> c = 0)"
    using assms by (simp_all add: IsLoopback_def IsLinkLocalUnicast_def IsLinkLocalMulticast_def)
  have c10: "Contains \<lparr>net_IP = [10, 0, 0, 0], net_Mask = [255, 0, 0, 0]\<rparr> ip = (a = 10)"
    unfolding Contains_v4 [OF assms] by (auto simp add: and255)
  have c172: "Contains \<lparr>net_IP = [172, 16, 0, 0], net_Mask = [255, 240, 0, 0]\<rparr> ip
       = (a = 172 \<and> b AND 0xF0 = 0x10)"
    unfolding Contains_v4 [OF assms] by (auto simp add: and255)
  have c192: "Contains \<lparr>net_IP = [192, 168, 0, 0], net_Mask = [255, 255, 0, 0]\<rparr> ip
       = (a = 192 \<and> b = 168)"
    unfolding Contains_v4 [OF assms] by (auto simp add: and255)
  show ?thesis
    unfolding isPrivateIP_def privateBlocks sp
    by (simp add: c10 c172 c192)
qed

text \<open>
  C6. Every address of 10.0.0.0/8, 172.16.0.0/12 and 192.168.0.0/16, in the 4-byte or
  the 16-byte form, is classified private, and so is every address of the IPv4
  loopback and link-local ranges and every address for which the library's
  \<^verbatim>\<open>IsLoopback\<close>, \<^verbatim>\<open>IsLinkLocalUnicast\<close> or \<^verbatim>\<open>IsLinkLocalMulticast\<close> holds.
  The addresses 8.8.8.8 and 1.1.1.1 are classified public. No error is returned.
\<close>

theorem isPrivateIP_reserved_ranges:
  "(isQuad ip a b c d \<and> (inPrivateRange a b c d \<or> inLocalRange a b c d)
      \<longrightarrow> isPrivateIP ip = (True, None))
   \<and> (IsLoopback ip' \<or> IsLinkLocalUnicast ip' \<or> IsLinkLocalMulticast ip'
      \<longrightarrow> isPrivateIP ip' = (True, None))
   \<and> isPrivateIP (ParseIP ''8.8.8.8'') = (False, None)
   \<and> isPrivateIP [8, 8, 8, 8] = (False, None)
   \<and> isPrivateIP (ParseIP ''1.1.1.1'') = (False, None)
   \<and> isPrivateIP [1, 1, 1, 1] = (False, None)"
proof -
  have ranges: "isPrivateIP ip = (True, None)"
    if q: "isQuad ip a b c d" and r: "inPrivateRange a b c d \<or> inLocalRange a b c d"
  proof -
    have "a = 172 \<and> 16 \<le> b \<and> b \<le> 31 \<Longrightarrow> b AND 0xF0 = 0x10"
      by (simp add: second_octet_172)
    with r show ?thesis
      unfolding isPrivateIP_To4 [OF To4_isQuad [OF q]] inPrivateRange_def inLocalRange_def
      by auto
  qed
  have special: "isPrivateIP ip' = (True, None)"
    if "IsLoopback ip' \<or> IsLinkLocalUnicast ip' \<or> IsLinkLocalMulticast ip'"
    using that by (simp add: isPrivateIP_def)
  have p8: "ParseIP ''8.8.8.8'' = IPv4 8 8 8 8" and p1: "ParseIP ''1.1.1.1'' = IPv4 1 1 1 1"
    by code_simp+
  have pub: "isPrivateIP (IPv4 8 8 8 8) = (False, None)" "isPrivateIP [8, 8, 8, 8] = (False, None)"
    "isPrivateIP (IPv4 1 1 1 1) = (False, None)" "isPrivateIP [1, 1, 1, 1] = (False, None)"
    by (simp_all add: isPrivateIP_To4 [OF To4_IPv4] isPrivateIP_To4 [OF To4_quad])
  show ?thesis
    using ranges special pub by (simp add: p8 p1)
qed

theorem isPrivateIP_reserved_ranges_witness:
  "isQuad (ParseIP ''172.20.1.9'') 172 20 1 9 \<and> inPrivateRange 172 20 1 9
   \<and> isPrivateIP (ParseIP ''172.20.1.9'') = (True, None)
   \<and> IsLoopback (ParseIP ''::1'')
   \<and> isPrivateIP (ParseIP ''::1'') = (True, None)"
proof -
  have q: "isQuad (ParseIP ''172.20.1.9'') 172 20 1 9"
    by code_simp
  have r: "inPrivateRange 172 20 1 9"
    by code_simp
  have l: "IsLoopback (ParseIP ''::1'')"
    by code_simp
  show ?thesis
    using isPrivateIP_reserved_ranges [of "ParseIP ''172.20.1.9''" 172 20 1 9 "ParseIP ''::1''"] q r l
    by simp
qed

section \<open>Properties of the exposure check\<close>

text \<open>
  C10. \<^verbatim>\<open>isPrivateIP\<close> returns a nil error on every input: the three hard-coded
  ranges always parse, so the branch that returns the parse error is never taken.
  The nil address, which \<^verbatim>\<open>net.ParseIP\<close> returns for a string it cannot parse, is
  classified as not private, and the loop over the fixed IPs of a port then takes
  the branch for a public address.
\<close>

theorem isPrivateIP_nil_error_and_nil_address:
  "snd (isPrivateIP ip) = None
   \<and> (\<exists>blocks. parseBlocks privateCIDRs [] = Inr blocks)
   \<and> isPrivateIP [] = (False, None)
   \<and> (ParseIP (IPAddress a) = [] \<longrightarrow> scanFixedIPs (a # rest) = Inr True)"
proof -
  have nil: "isPrivateIP [] = (False, None)"
    by code_simp
  then have "ParseIP (IPAddress a) = [] \<Longrightarrow> scanFixedIPs (a # rest) = Inr True"
    by simp
  then show ?thesis
    using nil by (simp add: isPrivateIP_no_error privateBlocks)
qed

theorem isPrivateIP_nil_error_and_nil_address_witness:
  "ParseIP (IPAddress example_unparseable) = []
   \<and> scanFixedIPs [example_unparseable] = Inr True
   \<and> snd (isPrivateIP (ParseIP (IPAddress example_unparseable))) = None"
proof -
  have p: "ParseIP (IPAddress example_unparseable) = []"
    by code_simp
  show ?thesis
    using isPrivateIP_nil_error_and_nil_address
            [of "ParseIP (IPAddress example_unparseable)" example_unparseable "[]"] p
    by simp
qed

lemma contain_iff: "contain s e = (e \<in> set s)"
  by (induction s) auto

lemma contains_iff: "contains s e = (e \<in> set s)"
  by (induction s) auto

lemma boundFIP_iff: "boundFIP fips port = (\<exists>fip \<in> set fips. fip_PortID fip = port_ID port)"
  by (induction fips) auto

lemma isPrivateIP_pair: "isPrivateIP ip = (fst (isPrivateIP ip), None)"
  using isPrivateIP_no_error [of ip] by (cases "isPrivateIP ip") simp

text \<open>The loops of the exposure check never return an error, and compute \<open>exposed\<close>.\<close>

lemma scanFixedIPs_eq:
  "scanFixedIPs ips = Inr (\<exists>ip \<in> set ips. classifiesPublic (IPAddress ip))"
proof (induction ips)
  case Nil
  show ?case by simp
next
  case (Cons ip ips)
  have "isPrivateIP (ParseIP (IPAddress ip)) = (\<not> classifiesPublic (IPAddress ip), None)"
    using isPrivateIP_pair [of "ParseIP (IPAddress ip)"] by (simp add: classifiesPublic_def)
  with Cons show ?case by simp
qed

lemma scanSecurityGroups_eq:
  "scanSecurityGroups sgids sg port fips =
     Inr (sg_ID sg \<in> set sgids
          \<and> ((\<exists>fip \<in> set fips. fip_PortID fip = port_ID port)
             \<or> (\<exists>ip \<in> set (port_FixedIPs port). classifiesPublic (IPAddress ip))))"
  by (induction sgids) (auto simp add: scanFixedIPs_eq boundFIP_iff)

lemma ignorePort_eq: "ignorePort ports sg fips = Inr (\<not> exposed sg ports fips)"
proof (induction ports)
  case Nil
  show ?case by (simp add: exposed_def)
next
  case (Cons port ports)
  then show ?case
    by (auto simp add: exposed_def scanSecurityGroups_eq)
qed

lemma getProjectNameFromID_label:
  "getProjectNameFromID tenantID ps = (name, err)
     \<Longrightarrow> (if err \<noteq> None then tenantID else name) = tenantLabel ps tenantID"
  by (induction ps) (auto simp add: tenantLabel_def split: if_splits)

lemma checkRules_eq:
  "checkRules rules sg allowed_sg b c =
     (b \<or> filter (\<lambda>rule. violationCandidate rule
                        \<and> \<not> suppressed (Cfg c) sg allowed_sg rule) rules \<noteq> [],
      c\<lparr>Attachments := Attachments c
           @ map (openAccessAttachment (tenantLabel (Projects c) (sg_TenantID sg)) sg)
               (filter (\<lambda>rule. violationCandidate rule
                         \<and> \<not> suppressed (Cfg c) sg allowed_sg rule) rules)\<rparr>)"
proof (induction rules arbitrary: b c)
  case Nil
  show ?case by simp
next
  case (Cons rule rules)
  let ?P = "\<lambda>rule. violationCandidate rule \<and> \<not> suppressed (Cfg c) sg allowed_sg rule"
  obtain name err where g: "getProjectNameFromID (sg_TenantID sg) (Projects c) = (name, err)"
    by (cases "getProjectNameFromID (sg_TenantID sg) (Projects c)") auto
  note lab = getProjectNameFromID_label [OF g]
  show ?case
  proof (cases "violationCandidate rule \<and> \<not> suppressed (Cfg c) sg allowed_sg rule")
    case True
    then have cand: "RemoteIPPrefix rule = ''0.0.0.0/0''" "Protocol rule = ''tcp''"
      "Direction rule = ''ingress''" "\<not> matchAllowdRule (Rules (Cfg c)) sg rule"
      "\<not> contain allowed_sg (sg_ID sg)"
      by (auto simp add: violationCandidate_def suppressed_def contain_iff)
    have step: "checkRules (rule # rules) sg allowed_sg b c =
        checkRules rules sg allowed_sg True
          (c\<lparr>Attachments := Attachments c
               @ [openAccessAttachment (tenantLabel (Projects c) (sg_TenantID sg)) sg rule]\<rparr>)"
      using lab by (simp add: cand g Let_def)
    have filt: "filter ?P (rule # rules) = rule # filter ?P rules"
      using True by simp
    show ?thesis
      unfolding step filt Cons.IH by simp
  next
    case False
    then have step: "checkRules (rule # rules) sg allowed_sg b c = checkRules rules sg allowed_sg b c"
      by (auto simp add: violationCandidate_def suppressed_def contain_iff)
    have filt: "filter ?P (rule # rules) = filter ?P rules"
      using False by simp
    show ?thesis
      unfolding step filt by (rule Cons.IH)
  qed
qed

lemma isFullOpen_eq:
  "isFullOpen c sg ports fips allowed_sg =
     (if exposed sg ports fips
      then ((reportedRules (Cfg c) sg allowed_sg \<noteq> [], None),
            c\<lparr>Attachments := Attachments c
                 @ openAccessFindings (Cfg c) (Projects c) sg allowed_sg\<rparr>)
      else ((False, None), c))"
  by (simp add: isFullOpen_def ignorePort_eq checkRules_eq openAccessFindings_def
        reportedRules_def)

lemma passFindings_Nil [simp]: "passFindings cfg ps [] ports fips allowed_sg = []"
  by (simp add: passFindings_def)

lemma passFindings_Cons [simp]:
  "passFindings cfg ps (sg # sgs) ports fips allowed_sg =
     (if exposed sg ports fips then openAccessFindings cfg ps sg allowed_sg else [])
     @ passFindings cfg ps sgs ports fips allowed_sg"
  by (simp add: passFindings_def)

lemma openAccessFindings_Nil_iff:
  "openAccessFindings cfg ps sg allowed_sg = [] \<longleftrightarrow> reportedRules cfg sg allowed_sg = []"
  by (simp add: openAccessFindings_def)

lemma openAccessLoop_eq:
  "openAccessLoop sgs ports fips allowed_sg b c =
     (Inr (b \<or> passFindings (Cfg c) (Projects c) sgs ports fips allowed_sg \<noteq> []),
      c\<lparr>Attachments := Attachments c
           @ passFindings (Cfg c) (Projects c) sgs ports fips allowed_sg\<rparr>)"
proof (induction sgs arbitrary: b c)
  case Nil
  show ?case by simp
next
  case (Cons sg sgs)
  show ?case
    by (simp add: isFullOpen_eq Cons.IH openAccessFindings_Nil_iff)
qed

text \<open>
  C3. The loop labelled \<^verbatim>\<open>IGNOREPORT\<close> leaves \<^verbatim>\<open>ignorePort\<close> false exactly when the
  group is exposed in the sense of the specification: some port lists the group's id
  and has a floating IP bound to it or a fixed IP that classifies as public. A group
  that is not exposed gets \<^verbatim>\<open>false, nil\<close> and no finding, whatever its rules; a group
  that no port lists is not exposed.
\<close>

theorem ignorePort_iff_not_exposed:
  "ignorePort ports sg fips = Inr (\<not> exposed sg ports fips)
   \<and> (\<not> exposed sg ports fips
        \<longrightarrow> isFullOpen c sg ports fips allowed_sg = ((False, None), c))
   \<and> ((\<forall>port \<in> set ports. sg_ID sg \<notin> set (port_SecurityGroups port))
        \<longrightarrow> \<not> exposed sg ports fips)"
  by (simp add: ignorePort_eq isFullOpen_eq) (simp add: exposed_def)

theorem ignorePort_iff_not_exposed_witness:
  "exposed example_sg [example_port ''203.0.113.5''] []
   \<and> ignorePort [example_port ''203.0.113.5''] example_sg [] = Inr False
   \<and> \<not> exposed example_sg [example_port ''10.1.2.3''] []
   \<and> ignorePort [example_port ''10.1.2.3''] example_sg [] = Inr True
   \<and> exposed example_sg [example_port ''10.1.2.3''] [\<lparr>fip_PortID = ''p1''\<rparr>]
   \<and> ignorePort [example_port ''10.1.2.3''] example_sg [\<lparr>fip_PortID = ''p1''\<rparr>] = Inr False
   \<and> \<not> exposed example_unattached [example_port ''203.0.113.5''] [\<lparr>fip_PortID = ''p1''\<rparr>]
   \<and> isFullOpen example_checker example_unattached [example_port ''203.0.113.5'']
         [\<lparr>fip_PortID = ''p1''\<rparr>] [] = ((False, None), example_checker)"
proof -
  have e1: "exposed example_sg [example_port ''203.0.113.5''] []"
    by code_simp
  have e2: "\<not> exposed example_sg [example_port ''10.1.2.3''] []"
    by code_simp
  have e3: "exposed example_sg [example_port ''10.1.2.3''] [\<lparr>fip_PortID = ''p1''\<rparr>]"
    by code_simp
  have e4: "\<forall>port \<in> set [example_port ''203.0.113.5''].
              sg_ID example_unattached \<notin> set (port_SecurityGroups port)"
    by code_simp
  show ?thesis
    using ignorePort_iff_not_exposed [of "[example_port ''203.0.113.5'']" example_sg "[]"]
      ignorePort_iff_not_exposed [of "[example_port ''10.1.2.3'']" example_sg "[]"]
      ignorePort_iff_not_exposed [of "[example_port ''10.1.2.3'']" example_sg
         "[\<lparr>fip_PortID = ''p1''\<rparr>]"]
      ignorePort_iff_not_exposed [of "[example_port ''203.0.113.5'']" example_unattached
         "[\<lparr>fip_PortID = ''p1''\<rparr>]" example_checker "[]"]
      e1 e2 e3 e4
    by simp
qed

text \<open>
  C1. For an exposed group, the rules reported are exactly the rules with protocol
  \<^verbatim>\<open>tcp\<close>, direction \<^verbatim>\<open>ingress\<close> and remote prefix \<^verbatim>\<open>0.0.0.0/0\<close> that the static
  matcher does not allow, provided the group's id is not on the dynamic allow-list;
  each of them adds exactly one attachment, in the order of the rules, and the
  returned flag says whether there was one. When the group's id is on the dynamic
  allow-list nothing is added and the flag is false, whatever the static rules say.
\<close>

theorem isFullOpen_reports_candidates:
  assumes "exposed sg ports fips"
  shows
    "isFullOpen c sg ports fips allowed_sg =
       ((reportedRules (Cfg c) sg allowed_sg \<noteq> [], None),
        c\<lparr>Attachments := Attachments c
             @ map (openAccessAttachment (tenantLabel (Projects c) (sg_TenantID sg)) sg)
                 (reportedRules (Cfg c) sg allowed_sg)\<rparr>)
     \<and> reportedRules (Cfg c) sg allowed_sg =
         filter (\<lambda>rule. Protocol rule = ''tcp'' \<and> Direction rule = ''ingress''
                   \<and> RemoteIPPrefix rule = ''0.0.0.0/0''
                   \<and> \<not> (matchAllowdRule (Rules (Cfg c)) sg rule \<or> sg_ID sg \<in> set allowed_sg))
           (sg_Rules sg)
     \<and> (sg_ID sg \<in> set allowed_sg
          \<longrightarrow> isFullOpen c sg ports fips allowed_sg = ((False, None), c))"
proof -
  have r: "reportedRules (Cfg c) sg allowed_sg =
         filter (\<lambda>rule. Protocol rule = ''tcp'' \<and> Direction rule = ''ingress''
                   \<and> RemoteIPPrefix rule = ''0.0.0.0/0''
                   \<and> \<not> (matchAllowdRule (Rules (Cfg c)) sg rule \<or> sg_ID sg \<in> set allowed_sg))
           (sg_Rules sg)"
    by (simp add: reportedRules_def violationCandidate_def suppressed_def conj_ac)
  have z: "reportedRules (Cfg c) sg allowed_sg = []" if "sg_ID sg \<in> set allowed_sg"
    using that by (simp add: reportedRules_def suppressed_def)
  have main: "isFullOpen c sg ports fips allowed_sg =
       ((reportedRules (Cfg c) sg allowed_sg \<noteq> [], None),
        c\<lparr>Attachments := Attachments c
             @ map (openAccessAttachment (tenantLabel (Projects c) (sg_TenantID sg)) sg)
                 (reportedRules (Cfg c) sg allowed_sg)\<rparr>)"
    using assms by (simp add: isFullOpen_eq openAccessFindings_def)
  have "isFullOpen c sg ports fips allowed_sg = ((False, None), c)"
    if "sg_ID sg \<in> set allowed_sg"
    unfolding main z [OF that] by simp
  with r main show ?thesis
    by blast
qed

theorem isFullOpen_reports_candidates_witness:
  "exposed example_sg [example_port ''203.0.113.5''] []
   \<and> reportedRules (Cfg example_checker) example_sg [] = [example_rule 22 22]
   \<and> isFullOpen example_checker example_sg [example_port ''203.0.113.5''] [] [] =
       ((True, None), example_checker\<lparr>Attachments := [example_finding]\<rparr>)
   \<and> isFullOpen example_checker example_sg [example_port ''203.0.113.5''] [] [''sg-1''] =
       ((False, None), example_checker)"
proof -
  have e: "exposed example_sg [example_port ''203.0.113.5''] []"
    by code_simp
  have r: "reportedRules (Cfg example_checker) example_sg [] = [example_rule 22 22]"
    by code_simp
  have a: "Attachments example_checker
             @ [openAccessAttachment
                  (tenantLabel (Projects example_checker) (sg_TenantID example_sg)) example_sg
                  (example_rule 22 22)] = [example_finding]"
    by code_simp
  have m: "sg_ID example_sg \<in> set [''sg-1'']"
    by code_simp
  show ?thesis
    using isFullOpen_reports_candidates [OF e, of example_checker "[]"]
      isFullOpen_reports_candidates [OF e, of example_checker "[''sg-1'']"] e m
    by (simp add: r a)
qed

text \<open>
  C4 (as the program has it). No classification fails: for a string that
  \<^verbatim>\<open>net.ParseIP\<close> cannot parse the classifier is handed the nil address and answers
  \<^verbatim>\<open>false, nil\<close>, that is, public. \<^verbatim>\<open>isFullOpen\<close> therefore never returns an error,
  and a group listed by a port with such a fixed IP is evaluated as exposed.
\<close>

theorem unparseable_address_classifies_public:
  assumes "ParseIP addr = []"
  shows
    "isPrivateIP (ParseIP addr) = (False, None)
     \<and> classifiesPublic addr
     \<and> snd (fst (isFullOpen c sg ports fips allowed_sg)) = None
     \<and> (port \<in> set ports \<and> sg_ID sg \<in> set (port_SecurityGroups port)
          \<and> \<lparr>IPAddress = addr\<rparr> \<in> set (port_FixedIPs port)
        \<longrightarrow> ignorePort ports sg fips = Inr False)"
proof -
  have nil: "isPrivateIP [] = (False, None)"
    by code_simp
  then have pub: "classifiesPublic addr"
    using assms by (simp add: classifiesPublic_def)
  have "exposed sg ports fips"
    if "port \<in> set ports" "sg_ID sg \<in> set (port_SecurityGroups port)"
      "\<lparr>IPAddress = addr\<rparr> \<in> set (port_FixedIPs port)"
    unfolding exposed_def using that pub by force
  then show ?thesis
    using nil pub assms by (simp add: isFullOpen_eq ignorePort_eq)
qed

theorem unparseable_address_classifies_public_witness:
  "ParseIP ''not-an-ip'' = []
   \<and> isPrivateIP (ParseIP ''not-an-ip'') = (False, None)
   \<and> ignorePort [example_port ''not-an-ip''] example_sg [] = Inr False
   \<and> snd (fst (isFullOpen example_checker example_sg [example_port ''not-an-ip''] [] [])) = None"
proof -
  have p: "ParseIP ''not-an-ip'' = []"
    by code_simp
  have m: "example_port ''not-an-ip'' \<in> set [example_port ''not-an-ip'']
     \<and> sg_ID example_sg \<in> set (port_SecurityGroups (example_port ''not-an-ip''))
     \<and> \<lparr>IPAddress = ''not-an-ip''\<rparr> \<in> set (port_FixedIPs (example_port ''not-an-ip''))"
    by code_simp
  show ?thesis
    using unparseable_address_classifies_public
            [OF p, of example_checker example_sg "[example_port ''not-an-ip'']" "[]" "[]"
               "example_port ''not-an-ip''"] p m
    by simp
qed

text \<open>
  The claim C4 as the specification states it fails on the program: the string
  \<^verbatim>\<open>not-an-ip\<close> cannot be parsed, yet its classification returns a verdict and no
  error, and the evaluation of a group attached to a port with that fixed IP returns
  \<^verbatim>\<open>true, nil\<close> with a finding.
\<close>

theorem unparseable_address_no_InvalidAddress:
  "ParseIP ''not-an-ip'' = []
   \<and> isPrivateIP (ParseIP ''not-an-ip'') = (False, None)
   \<and> isFullOpen example_checker example_sg [example_port ''not-an-ip''] [] [] =
       ((True, None), example_checker\<lparr>Attachments := [example_finding]\<rparr>)"
  by code_simp

text \<open>
  C8. A pass of the open-access evaluator appends to the accumulator a list of
  findings that depends only on the configuration, the projects, the inventory and
  the dynamic allow-list, never on what the accumulator held. A second pass over the
  same snapshot, started from the state the first one left, returns the same flag
  and appends the same findings in the same order. No pass returns an error.
\<close>

theorem openAccessLoop_repeatable:
  assumes "F = passFindings (Cfg c) (Projects c) sgs ports fips allowed_sg"
  shows
    "openAccessLoop sgs ports fips allowed_sg False c =
       (Inr (F \<noteq> []), c\<lparr>Attachments := Attachments c @ F\<rparr>)
     \<and> openAccessLoop sgs ports fips allowed_sg False (c\<lparr>Attachments := Attachments c @ F\<rparr>) =
       (Inr (F \<noteq> []), c\<lparr>Attachments := Attachments c @ F @ F\<rparr>)"
  using assms by (simp add: openAccessLoop_eq)

theorem openAccessLoop_repeatable_witness:
  "passFindings (Cfg example_checker) (Projects example_checker) [example_unattached, example_sg]
      [example_port ''203.0.113.5''] [] [] = [example_finding]
   \<and> openAccessLoop [example_unattached, example_sg] [example_port ''203.0.113.5''] [] [] False
        example_checker
      = (Inr True, example_checker\<lparr>Attachments := [example_finding]\<rparr>)
   \<and> openAccessLoop [example_unattached, example_sg] [example_port ''203.0.113.5''] [] [] False
        (example_checker\<lparr>Attachments := [example_finding]\<rparr>)
      = (Inr True, example_checker\<lparr>Attachments := [example_finding, example_finding]\<rparr>)"
proof -
  have f: "[example_finding] =
     passFindings (Cfg example_checker) (Projects example_checker) [example_unattached, example_sg]
      [example_port ''203.0.113.5''] [] []"
    by code_simp
  have a: "Attachments example_checker = []"
    by code_simp
  show ?thesis
    using openAccessLoop_repeatable [OF f] f [symmetric]
    by (simp add: a del: passFindings_Cons passFindings_Nil)
qed

section \<open>Properties of the allow-rule matcher\<close>

lemma isDecDigit_char_of: "k < 10 \<Longrightarrow> isDecDigit (char_of (48 + k :: nat))"
  by (simp add: isDecDigit_def)

lemma formatDecimal_digits: "list_all isDecDigit (formatDecimal n)"
proof (induction n rule: formatDecimal.induct)
  case (1 n)
  show ?case
  proof (cases "n < 10")
    case True
    then show ?thesis
      by (subst formatDecimal.simps) (simp add: isDecDigit_char_of)
  next
    case False
    with 1 show ?thesis
      by (subst formatDecimal.simps) (simp add: isDecDigit_char_of)
  qed
qed

lemma hyphen_not_digit: "\<not> isDecDigit CHR ''-''"
  by (simp add: isDecDigit_def)

lemma digits_no_hyphen: "list_all isDecDigit d \<Longrightarrow> CHR ''-'' \<notin> set d"
  using hyphen_not_digit by (auto simp add: list_all_iff)

lemma Itoa_nonneg: "0 \<le> i \<Longrightarrow> list_all isDecDigit (Itoa i)"
  by (simp add: Itoa_def formatDecimal_digits)

lemma Itoa_neg: "i < 0 \<Longrightarrow> Itoa i = CHR ''-'' # formatDecimal (nat (- i))"
  by (simp add: Itoa_def)

text \<open>The pattern on a string that begins with digits and a hyphen, and on one without hyphen.\<close>

lemma submatchAt_range:
  assumes "list_all isDecDigit d"
  shows "submatchAt (d @ CHR ''-'' # r) = Some (d, takeWhile isDecDigit r)"
proof -
  have all: "\<forall>x \<in> set d. isDecDigit x"
    using assms by (simp add: list_all_iff)
  then have "dropWhile isDecDigit (d @ CHR ''-'' # r) = CHR ''-'' # r"
    by (simp add: dropWhile_append3 hyphen_not_digit)
  moreover have "takeWhile isDecDigit (d @ CHR ''-'' # r) = d"
    using all by (simp add: takeWhile_append2 hyphen_not_digit)
  ultimately show ?thesis
    by (simp add: submatchAt_def)
qed

lemma FindSubmatch_range:
  assumes "list_all isDecDigit d"
  shows "FindSubmatch (d @ CHR ''-'' # r) = Some (d, takeWhile isDecDigit r)"
proof (cases d)
  case Nil
  then show ?thesis
    using submatchAt_range [of "[]" r] by simp
next
  case (Cons c cs)
  then show ?thesis
    using submatchAt_range [OF assms, of r] by simp
qed

lemma submatchAt_no_hyphen:
  assumes "CHR ''-'' \<notin> set s"
  shows "submatchAt s = None"
proof (cases "dropWhile isDecDigit s")
  case Nil
  show ?thesis
    unfolding submatchAt_def Nil by simp
next
  case (Cons c r)
  then have "c \<in> set (dropWhile isDecDigit s)"
    by simp
  then have "c \<in> set s"
    by (rule set_dropWhileD)
  with assms have "c \<noteq> CHR ''-''"
    by auto
  then show ?thesis
    unfolding submatchAt_def Cons by simp
qed

lemma FindSubmatch_no_hyphen: "CHR ''-'' \<notin> set s \<Longrightarrow> FindSubmatch s = None"
  by (induction s) (simp_all add: submatchAt_no_hyphen)

lemma isPortRange_split:
  assumes "isPortRange p"
  obtains d r where "p = d @ CHR ''-'' # r" "d \<noteq> []" "list_all isDecDigit d"
    "r \<noteq> []" "list_all isDecDigit r"
proof -
  from assms obtain r where dw: "dropWhile isDecDigit p = CHR ''-'' # r"
    and ne: "takeWhile isDecDigit p \<noteq> []" and num: "isPortNumber r"
    by (auto simp add: isPortRange_def split: list.splits)
  have "p = takeWhile isDecDigit p @ dropWhile isDecDigit p"
    by simp
  then have p: "p = takeWhile isDecDigit p @ CHR ''-'' # r"
    by (simp only: dw)
  have "list_all isDecDigit (takeWhile isDecDigit p)"
    by (auto simp add: list_all_iff dest: set_takeWhileD)
  with p ne num show ?thesis
    by (auto simp add: isPortNumber_def intro: that)
qed

lemma first_occurrence_split:
  assumes "x \<notin> set xs" "x \<notin> set xs'" "xs @ x # ys = xs' @ x # ys'"
  shows "xs = xs' \<and> ys = ys'"
proof -
  have tw: "takeWhile (\<lambda>c. c \<noteq> x) (zs @ x # ws) = zs" if "x \<notin> set zs" for zs ws
    using that by (induction zs) auto
  have "xs = takeWhile (\<lambda>c. c \<noteq> x) (xs @ x # ys)"
    using assms(1) by (simp add: tw)
  also have "\<dots> = takeWhile (\<lambda>c. c \<noteq> x) (xs' @ x # ys')"
    by (simp only: assms(3))
  also have "\<dots> = xs'"
    using assms(2) by (simp add: tw)
  finally have "xs = xs'" .
  with assms(3) show ?thesis
    by simp
qed

text \<open>A well-formed range is the rule's range expression exactly when both groups agree.\<close>

lemma range_groups_iff:
  assumes "list_all isDecDigit d" "d \<noteq> []" "list_all isDecDigit r"
  shows "(d = Itoa lo \<and> r = Itoa hi) \<longleftrightarrow> d @ CHR ''-'' # r = rangeExpression lo hi"
proof
  assume "d = Itoa lo \<and> r = Itoa hi"
  then show "d @ CHR ''-'' # r = rangeExpression lo hi"
    by (simp add: rangeExpression_def)
next
  assume eq: "d @ CHR ''-'' # r = rangeExpression lo hi"
  then have eq': "d @ CHR ''-'' # r = Itoa lo @ CHR ''-'' # Itoa hi"
    by (simp add: rangeExpression_def)
  have lo: "0 \<le> lo"
  proof (rule ccontr)
    assume "\<not> 0 \<le> lo"
    then have "Itoa lo = CHR ''-'' # formatDecimal (nat (- lo))"
      by (simp add: Itoa_neg)
    with eq' have "hd (d @ CHR ''-'' # r) = CHR ''-''"
      by simp
    with assms(2) have "hd d = CHR ''-''"
      by simp
    moreover have "hd d \<in> set d"
      using assms(2) by simp
    ultimately show False
      using digits_no_hyphen [OF assms(1)] by simp
  qed
  have "CHR ''-'' \<notin> set d" "CHR ''-'' \<notin> set (Itoa lo)"
    using digits_no_hyphen assms(1) Itoa_nonneg [OF lo] by blast+
  then show "d = Itoa lo \<and> r = Itoa hi"
    using eq' by (rule first_occurrence_split)
qed

lemma matchPortRange_wellformed:
  assumes "\<forall>p \<in> set ports. isPortNumber p \<or> isPortRange p"
  shows "matchPortRange ports rule =
           (rangeExpression (PortRangeMin rule) (PortRangeMax rule) \<in> set ports)"
  using assms
proof (induction ports)
  case Nil
  show ?case by simp
next
  case (Cons p ports)
  then have IH: "matchPortRange ports rule =
           (rangeExpression (PortRangeMin rule) (PortRangeMax rule) \<in> set ports)"
    by simp
  from Cons.prems consider (num) "isPortNumber p" | (range) "isPortRange p"
    by auto
  then show ?case
  proof cases
    case num
    then have nh: "CHR ''-'' \<notin> set p"
      by (simp add: isPortNumber_def digits_no_hyphen)
    have "CHR ''-'' \<in> set (rangeExpression (PortRangeMin rule) (PortRangeMax rule))"
      by (simp add: rangeExpression_def)
    with nh have "rangeExpression (PortRangeMin rule) (PortRangeMax rule) \<noteq> p"
      by auto
    then show ?thesis
      by (simp add: FindSubmatch_no_hyphen [OF nh] IH MatchString_def)
  next
    case range
    then obtain d r where p: "p = d @ CHR ''-'' # r" and d: "d \<noteq> []" "list_all isDecDigit d"
      and r: "list_all isDecDigit r"
      by (rule isPortRange_split)
    have "takeWhile isDecDigit r = r"
      using r by (simp add: list_all_iff)
    then have f: "FindSubmatch p = Some (d, r)"
      using FindSubmatch_range [OF d(2), of r] p by simp
    have "(d = Itoa (PortRangeMin rule) \<and> r = Itoa (PortRangeMax rule))
            \<longleftrightarrow> rangeExpression (PortRangeMin rule) (PortRangeMax rule) = p"
      using range_groups_iff [OF d(2) d(1) r] p by auto
    then show ?thesis
      by (auto simp add: f IH MatchString_def)
  qed
qed

lemma matchAllowdRule_wellformed:
  assumes "wellFormedPorts allowdRules"
  shows "matchAllowdRule allowdRules sg rule = allowedBySpec allowdRules sg rule"
  using assms
proof (induction allowdRules)
  case Nil
  show ?case by (simp add: allowedBySpec_def)
next
  case (Cons a allowdRules)
  then have IH: "matchAllowdRule allowdRules sg rule = allowedBySpec allowdRules sg rule"
    by (simp add: wellFormedPorts_def)
  have wf: "\<forall>p \<in> set (rule_Port a). isPortNumber p \<or> isPortRange p"
    using Cons.prems by (simp add: wellFormedPorts_def)
  have split: "allowedBySpec (a # allowdRules) sg rule =
      ((rule_TenantID a = sg_TenantID sg \<and> rule_SG a = sg_Name sg
        \<and> (rangeExpression (PortRangeMin rule) (PortRangeMax rule) \<in> set (rule_Port a)
           \<or> (Itoa (PortRangeMin rule) \<in> set (rule_Port a)
              \<and> Itoa (PortRangeMax rule) \<in> set (rule_Port a))))
       \<or> allowedBySpec allowdRules sg rule)"
    by (simp add: allowedBySpec_def)
  show ?case
    unfolding split
    by (auto simp add: IH matchPortRange_wellformed [OF wf] contains_iff)
qed

text \<open>The matcher on arbitrary port strings, in terms of the first match of the pattern.\<close>

lemma matchPortRange_eq:
  "matchPortRange ports rule =
     (\<exists>p \<in> set ports.
        FindSubmatch p = Some (Itoa (PortRangeMin rule), Itoa (PortRangeMax rule)))"
  by (induction ports) (auto simp add: MatchString_def split: option.splits)

lemma matchAllowdRule_eq:
  "matchAllowdRule allowdRules sg rule =
     (\<exists>allowdRule \<in> set allowdRules.
        rule_TenantID allowdRule = sg_TenantID sg \<and> rule_SG allowdRule = sg_Name sg
        \<and> ((\<exists>p \<in> set (rule_Port allowdRule).
               FindSubmatch p = Some (Itoa (PortRangeMin rule), Itoa (PortRangeMax rule)))
           \<or> (Itoa (PortRangeMin rule) \<in> set (rule_Port allowdRule)
              \<and> Itoa (PortRangeMax rule) \<in> set (rule_Port allowdRule))))"
proof (induction allowdRules)
  case Nil
  show ?case by simp
next
  case (Cons a allowdRules)
  show ?case
    unfolding matchAllowdRule.simps Cons.IH matchPortRange_eq contains_iff
    by auto
qed

text \<open>
  The first match of the pattern in a port string, read off the string itself: its
  groups are two runs of digits around the first hyphen, each as long as it can be.
\<close>

lemma Itoa_digits_iff: "list_all isDecDigit (Itoa i) \<longleftrightarrow> 0 \<le> i"
proof (cases "0 \<le> i")
  case True
  then show ?thesis
    by (simp add: Itoa_nonneg)
next
  case False
  then show ?thesis
    by (simp add: Itoa_neg hyphen_not_digit)
qed

lemma takeWhile_digits_stop:
  assumes "list_all isDecDigit g" "post = [] \<or> \<not> isDecDigit (hd post)"
  shows "takeWhile isDecDigit (g @ post) = g"
proof -
  have "takeWhile isDecDigit post = []"
    using assms(2) by (cases post) auto
  moreover have "\<forall>x \<in> set g. isDecDigit x"
    using assms(1) by (simp add: list_all_iff)
  ultimately show ?thesis
    by (simp add: takeWhile_append2)
qed

lemma submatchAt_blocked:
  assumes "CHR ''-'' \<notin> set pre" "\<exists>x \<in> set pre. \<not> isDecDigit x"
  shows "submatchAt (pre @ s) = None"
proof -
  from assms(2) obtain x where "x \<in> set pre" "\<not> isDecDigit x"
    by blast
  then have dw: "dropWhile isDecDigit (pre @ s) = dropWhile isDecDigit pre @ s"
    by (rule dropWhile_append1)
  have ne: "dropWhile isDecDigit pre \<noteq> []"
    using assms(2) by (simp add: dropWhile_eq_Nil_conv)
  then obtain c r where cr: "dropWhile isDecDigit pre = c # r"
    by (cases "dropWhile isDecDigit pre") auto
  then have "c \<in> set (dropWhile isDecDigit pre)"
    by simp
  then have "c \<in> set pre"
    by (rule set_dropWhileD)
  with assms(1) have "c \<noteq> CHR ''-''"
    by auto
  then show ?thesis
    unfolding submatchAt_def dw cr by simp
qed

lemma FindSubmatch_first_range:
  assumes "list_all isDecDigit g1" "list_all isDecDigit g2"
    "CHR ''-'' \<notin> set pre" "pre = [] \<or> \<not> isDecDigit (last pre)"
    "post = [] \<or> \<not> isDecDigit (hd post)"
  shows "FindSubmatch (pre @ g1 @ CHR ''-'' # g2 @ post) = Some (g1, g2)"
  using assms(3,4)
proof (induction pre)
  case Nil
  show ?case
    using FindSubmatch_range [OF assms(1), of "g2 @ post"]
      takeWhile_digits_stop [OF assms(2) assms(5)]
    by simp
next
  case (Cons c pre)
  from Cons.prems have last: "\<not> isDecDigit (last (c # pre))"
    by simp
  have "last (c # pre) \<in> set (c # pre)"
    by (rule last_in_set) simp
  with last have "\<exists>x \<in> set (c # pre). \<not> isDecDigit x"
    by blast
  with Cons.prems(1) have none: "submatchAt ((c # pre) @ g1 @ CHR ''-'' # g2 @ post) = None"
    by (rule submatchAt_blocked)
  have "pre = [] \<or> \<not> isDecDigit (last pre)"
    using last by (cases pre) auto
  with Cons.IH Cons.prems(1)
  have "FindSubmatch (pre @ g1 @ CHR ''-'' # g2 @ post) = Some (g1, g2)"
    by simp
  with none show ?case
    by simp
qed

lemma submatchAt_Some:
  assumes "submatchAt s = Some (g1, g2)"
  shows "list_all isDecDigit g1 \<and> list_all isDecDigit g2
    \<and> (\<exists>post. s = g1 @ CHR ''-'' # g2 @ post \<and> (post = [] \<or> \<not> isDecDigit (hd post)))"
proof -
  from assms obtain r where dw: "dropWhile isDecDigit s = CHR ''-'' # r"
    and g1: "g1 = takeWhile isDecDigit s" and g2: "g2 = takeWhile isDecDigit r"
    by (auto simp add: submatchAt_def split: list.splits if_splits)
  have "s = takeWhile isDecDigit s @ dropWhile isDecDigit s"
    by simp
  then have s: "s = g1 @ CHR ''-'' # r"
    by (simp only: dw g1)
  have r: "r = g2 @ dropWhile isDecDigit r"
    by (simp add: g2)
  have d: "list_all isDecDigit g1" "list_all isDecDigit g2"
    by (auto simp add: g1 g2 list_all_iff dest: set_takeWhileD)
  have stop: "dropWhile isDecDigit r = [] \<or> \<not> isDecDigit (hd (dropWhile isDecDigit r))"
    using hd_dropWhile [of isDecDigit r] by blast
  from s r have "s = g1 @ CHR ''-'' # g2 @ dropWhile isDecDigit r"
    by simp
  with d stop show ?thesis
    by blast
qed

lemma FindSubmatch_Some:
  assumes "FindSubmatch p = Some (g1, g2)"
  shows "list_all isDecDigit g1 \<and> list_all isDecDigit g2
    \<and> (\<exists>pre post. p = pre @ g1 @ CHR ''-'' # g2 @ post
          \<and> CHR ''-'' \<notin> set pre
          \<and> (pre = [] \<or> \<not> isDecDigit (last pre))
          \<and> (post = [] \<or> \<not> isDecDigit (hd post)))"
  using assms
proof (induction p)
  case Nil
  then show ?case by simp
next
  case (Cons c cs)
  show ?case
  proof (cases "submatchAt (c # cs)")
    case (Some m)
    with Cons.prems have "submatchAt (c # cs) = Some (g1, g2)"
      by simp
    from submatchAt_Some [OF this] obtain post where
      "list_all isDecDigit g1" "list_all isDecDigit g2"
      "c # cs = [] @ g1 @ CHR ''-'' # g2 @ post" "post = [] \<or> \<not> isDecDigit (hd post)"
      by auto
    then show ?thesis
      by (metis empty_iff empty_set)
  next
    case None
    with Cons.prems have "FindSubmatch cs = Some (g1, g2)"
      by simp
    from Cons.IH [OF this] obtain pre post where
      d: "list_all isDecDigit g1" "list_all isDecDigit g2"
      and cs: "cs = pre @ g1 @ CHR ''-'' # g2 @ post"
      and pre: "CHR ''-'' \<notin> set pre" "pre = [] \<or> \<not> isDecDigit (last pre)"
      and post: "post = [] \<or> \<not> isDecDigit (hd post)"
      by blast
    have c: "c \<noteq> CHR ''-''"
    proof
      assume "c = CHR ''-''"
      then have "submatchAt (c # cs) = Some ([], takeWhile isDecDigit cs)"
        using submatchAt_range [of "[]" cs] by simp
      with None show False
        by simp
    qed
    have l: "\<not> isDecDigit (last (c # pre))"
    proof (cases pre)
      case Nil
      show ?thesis
      proof
        assume "isDecDigit (last (c # pre))"
        then have "list_all isDecDigit (c # g1)"
          using d(1) Nil by simp
        from submatchAt_range [OF this, of "g2 @ post"] None cs Nil show False
          by simp
      qed
    next
      case (Cons x xs)
      with pre(2) show ?thesis
        by simp
    qed
    have "c # cs = (c # pre) @ g1 @ CHR ''-'' # g2 @ post" "CHR ''-'' \<notin> set (c # pre)"
      using cs c pre(1) by auto
    with d l post show ?thesis
      by blast
  qed
qed

lemma in_set_cuts: "(l, r) \<in> set (cuts xs) \<longleftrightarrow> xs = l @ r"
proof (induction xs arbitrary: l)
  case Nil
  show ?case by auto
next
  case (Cons x xs)
  show ?case
  proof (cases l)
    case Nil
    then show ?thesis by auto
  next
    case (Cons y ys)
    with Cons.IH [of ys] show ?thesis by auto
  qed
qed

lemma Bex_cuts: "(\<exists>(l, r) \<in> set (cuts xs). P l r) \<longleftrightarrow> (\<exists>l r. xs = l @ r \<and> P l r)"
  by (simp add: Bex_def in_set_cuts)

lemma firstRangeIs_iff:
  "firstRangeIs p lo hi \<longleftrightarrow>
     0 \<le> lo \<and> 0 \<le> hi
     \<and> (\<exists>pre post. p = pre @ rangeExpression lo hi @ post
           \<and> CHR ''-'' \<notin> set pre
           \<and> (pre = [] \<or> \<not> isDecDigit (last pre))
           \<and> (post = [] \<or> \<not> isDecDigit (hd post)))"
  unfolding firstRangeIs_def Bex_cuts by blast

lemma FindSubmatch_iff_firstRangeIs:
  "FindSubmatch p = Some (Itoa lo, Itoa hi) \<longleftrightarrow> firstRangeIs p lo hi"
proof
  assume "FindSubmatch p = Some (Itoa lo, Itoa hi)"
  from FindSubmatch_Some [OF this] obtain pre post where
    d: "list_all isDecDigit (Itoa lo)" "list_all isDecDigit (Itoa hi)"
    and p: "p = pre @ Itoa lo @ CHR ''-'' # Itoa hi @ post"
    and pre: "CHR ''-'' \<notin> set pre" "pre = [] \<or> \<not> isDecDigit (last pre)"
    and post: "post = [] \<or> \<not> isDecDigit (hd post)"
    by blast
  from p have p': "p = pre @ rangeExpression lo hi @ post"
    by (simp add: rangeExpression_def)
  with d pre post show "firstRangeIs p lo hi"
    unfolding firstRangeIs_iff Itoa_digits_iff by blast
next
  assume "firstRangeIs p lo hi"
  then obtain pre post where nn: "0 \<le> lo" "0 \<le> hi"
    and p: "p = pre @ rangeExpression lo hi @ post"
    and pre: "CHR ''-'' \<notin> set pre" "pre = [] \<or> \<not> isDecDigit (last pre)"
    and post: "post = [] \<or> \<not> isDecDigit (hd post)"
    unfolding firstRangeIs_iff by blast
  from p have "p = pre @ Itoa lo @ CHR ''-'' # Itoa hi @ post"
    by (simp add: rangeExpression_def)
  with FindSubmatch_first_range [OF Itoa_nonneg [OF nn(1)] Itoa_nonneg [OF nn(2)] pre post]
  show "FindSubmatch p = Some (Itoa lo, Itoa hi)"
    by simp
qed

lemma firstRangeIs_rangeExpression:
  assumes "0 \<le> lo" "0 \<le> hi"
  shows "firstRangeIs (rangeExpression lo hi) lo hi"
proof -
  have "FindSubmatch ([] @ Itoa lo @ CHR ''-'' # Itoa hi @ []) = Some (Itoa lo, Itoa hi)"
    by (rule FindSubmatch_first_range [OF Itoa_nonneg [OF assms(1)] Itoa_nonneg [OF assms(2)]])
      simp_all
  then have "FindSubmatch (rangeExpression lo hi) = Some (Itoa lo, Itoa hi)"
    by (simp add: rangeExpression_def)
  then show ?thesis
    by (simp only: FindSubmatch_iff_firstRangeIs)
qed

lemma matchAllowdRule_firstRangeIs:
  "matchAllowdRule allowdRules sg rule =
     (\<exists>allowdRule \<in> set allowdRules.
        rule_TenantID allowdRule = sg_TenantID sg \<and> rule_SG allowdRule = sg_Name sg
        \<and> ((\<exists>p \<in> set (rule_Port allowdRule).
               firstRangeIs p (PortRangeMin rule) (PortRangeMax rule))
           \<or> (Itoa (PortRangeMin rule) \<in> set (rule_Port allowdRule)
              \<and> Itoa (PortRangeMax rule) \<in> set (rule_Port allowdRule))))"
  unfolding matchAllowdRule_eq FindSubmatch_iff_firstRangeIs ..

lemma allowedBySpec_sufficient:
  assumes "0 \<le> PortRangeMin rule" "0 \<le> PortRangeMax rule" "allowedBySpec allowdRules sg rule"
  shows "matchAllowdRule allowdRules sg rule"
proof -
  from assms(3) obtain a where a: "a \<in> set allowdRules"
    "rule_TenantID a = sg_TenantID sg" "rule_SG a = sg_Name sg"
    and ports: "rangeExpression (PortRangeMin rule) (PortRangeMax rule) \<in> set (rule_Port a)
       \<or> (Itoa (PortRangeMin rule) \<in> set (rule_Port a)
           \<and> Itoa (PortRangeMax rule) \<in> set (rule_Port a))"
    unfolding allowedBySpec_def by blast
  from ports firstRangeIs_rangeExpression [OF assms(1) assms(2)]
  have "(\<exists>p \<in> set (rule_Port a). firstRangeIs p (PortRangeMin rule) (PortRangeMax rule))
       \<or> (Itoa (PortRangeMin rule) \<in> set (rule_Port a)
           \<and> Itoa (PortRangeMax rule) \<in> set (rule_Port a))"
    by blast
  with a show ?thesis
    unfolding matchAllowdRule_firstRangeIs by blast
qed

text \<open>
  C2. The matcher returns true exactly when some entry with the group's tenant id and
  name either has a port string that has the range expression \<open>min-max\<close> of the
  rule's two bounds at its first hyphen, with nothing or a character that is no
  digit before it and after it, both bounds not negative, or holds both bounds as
  literal entries. The port string need not be the range expression itself. When the
  bounds are not negative, an entry that holds the range expression or both literal
  bounds allows the rule; and on allow rules whose port strings are all literal port
  numbers or range expressions the matcher returns true exactly when some entry for
  the group holds the range expression of the rule's bounds or both bounds as
  literal entries. So the ports \<^verbatim>\<open>["80-80"]\<close> allow a rule 80-80 and not a rule 80-443,
  and the ports \<^verbatim>\<open>["80", "443"]\<close> allow a rule 80-443 and not a rule 80-81.
\<close>

theorem matchAllowdRule_iff_first_range:
  "matchAllowdRule allowdRules sg rule
     = (\<exists>allowdRule \<in> set allowdRules.
          rule_TenantID allowdRule = sg_TenantID sg \<and> rule_SG allowdRule = sg_Name sg
          \<and> ((\<exists>p \<in> set (rule_Port allowdRule).
                 firstRangeIs p (PortRangeMin rule) (PortRangeMax rule))
             \<or> (Itoa (PortRangeMin rule) \<in> set (rule_Port allowdRule)
                \<and> Itoa (PortRangeMax rule) \<in> set (rule_Port allowdRule))))
   \<and> (0 \<le> PortRangeMin rule \<and> 0 \<le> PortRangeMax rule \<and> allowedBySpec allowdRules sg rule
        \<longrightarrow> matchAllowdRule allowdRules sg rule)
   \<and> (wellFormedPorts allowdRules \<longrightarrow>
        matchAllowdRule allowdRules sg rule
          = (\<exists>allowdRule \<in> set allowdRules.
               rule_TenantID allowdRule = sg_TenantID sg \<and> rule_SG allowdRule = sg_Name sg
               \<and> (Itoa (PortRangeMin rule) @ ''-'' @ Itoa (PortRangeMax rule)
                     \<in> set (rule_Port allowdRule)
                  \<or> (Itoa (PortRangeMin rule) \<in> set (rule_Port allowdRule)
                     \<and> Itoa (PortRangeMax rule) \<in> set (rule_Port allowdRule)))))
   \<and> matchAllowdRule (example_allow [''80-80'']) example_sg (example_rule 80 80)
   \<and> \<not> matchAllowdRule (example_allow [''80-80'']) example_sg (example_rule 80 443)
   \<and> matchAllowdRule (example_allow [''80'', ''443'']) example_sg (example_rule 80 443)
   \<and> \<not> matchAllowdRule (example_allow [''80'', ''443'']) example_sg (example_rule 80 81)"
proof -
  have ex: "matchAllowdRule (example_allow [''80-80'']) example_sg (example_rule 80 80)"
    "\<not> matchAllowdRule (example_allow [''80-80'']) example_sg (example_rule 80 443)"
    "matchAllowdRule (example_allow [''80'', ''443'']) example_sg (example_rule 80 443)"
    "\<not> matchAllowdRule (example_allow [''80'', ''443'']) example_sg (example_rule 80 81)"
    by code_simp+
  have wf: "matchAllowdRule allowdRules sg rule
          = (\<exists>allowdRule \<in> set allowdRules.
               rule_TenantID allowdRule = sg_TenantID sg \<and> rule_SG allowdRule = sg_Name sg
               \<and> (Itoa (PortRangeMin rule) @ ''-'' @ Itoa (PortRangeMax rule)
                     \<in> set (rule_Port allowdRule)
                  \<or> (Itoa (PortRangeMin rule) \<in> set (rule_Port allowdRule)
                     \<and> Itoa (PortRangeMax rule) \<in> set (rule_Port allowdRule))))"
    if "wellFormedPorts allowdRules"
    using matchAllowdRule_wellformed [OF that, of sg rule]
    by (simp add: allowedBySpec_def rangeExpression_def)
  show ?thesis
    using matchAllowdRule_firstRangeIs [of allowdRules sg rule]
      allowedBySpec_sufficient [of rule allowdRules sg] wf ex
    by blast
qed

theorem matchAllowdRule_iff_first_range_witness:
  "matchAllowdRule (example_allow [''x80-80y'']) example_sg (example_rule 80 80)
   \<and> \<not> matchAllowdRule (example_allow [''180-80'', ''1-2-80-80'']) example_sg (example_rule 80 80)
   \<and> allowedBySpec (example_allow [''22'', ''80-80'']) example_sg (example_rule 80 80)
   \<and> matchAllowdRule (example_allow [''22'', ''80-80'']) example_sg (example_rule 80 80)
   \<and> wellFormedPorts (example_allow [''8080'', ''80-443''])
   \<and> matchAllowdRule (example_allow [''8080'', ''80-443'']) example_sg (example_rule 80 443)
   \<and> \<not> matchAllowdRule (example_allow [''8080'', ''80-443'']) example_sg (example_rule 80 80)
   \<and> \<not> matchAllowdRule (example_allow [''8080'', ''80-443'']) example_sg (example_rule 100 200)"
proof -
  have a: "(\<exists>allowdRule \<in> set (example_allow [''x80-80y'']).
            rule_TenantID allowdRule = sg_TenantID example_sg
            \<and> rule_SG allowdRule = sg_Name example_sg
            \<and> ((\<exists>p \<in> set (rule_Port allowdRule).
                   firstRangeIs p (PortRangeMin (example_rule 80 80))
                     (PortRangeMax (example_rule 80 80)))
               \<or> (Itoa (PortRangeMin (example_rule 80 80)) \<in> set (rule_Port allowdRule)
                  \<and> Itoa (PortRangeMax (example_rule 80 80)) \<in> set (rule_Port allowdRule))))"
    "\<not> (\<exists>allowdRule \<in> set (example_allow [''180-80'', ''1-2-80-80'']).
            rule_TenantID allowdRule = sg_TenantID example_sg
            \<and> rule_SG allowdRule = sg_Name example_sg
            \<and> ((\<exists>p \<in> set (rule_Port allowdRule).
                   firstRangeIs p (PortRangeMin (example_rule 80 80))
                     (PortRangeMax (example_rule 80 80)))
               \<or> (Itoa (PortRangeMin (example_rule 80 80)) \<in> set (rule_Port allowdRule)
                  \<and> Itoa (PortRangeMax (example_rule 80 80)) \<in> set (rule_Port allowdRule))))"
    by code_simp+
  have s: "0 \<le> PortRangeMin (example_rule 80 80)" "0 \<le> PortRangeMax (example_rule 80 80)"
    "allowedBySpec (example_allow [''22'', ''80-80'']) example_sg (example_rule 80 80)"
    by code_simp+
  have wf: "wellFormedPorts (example_allow [''8080'', ''80-443''])"
    by code_simp
  have r: "(\<exists>allowdRule \<in> set (example_allow [''8080'', ''80-443'']).
            rule_TenantID allowdRule = sg_TenantID example_sg
            \<and> rule_SG allowdRule = sg_Name example_sg
            \<and> (Itoa (PortRangeMin (example_rule 80 443)) @ ''-''
                  @ Itoa (PortRangeMax (example_rule 80 443)) \<in> set (rule_Port allowdRule)
               \<or> (Itoa (PortRangeMin (example_rule 80 443)) \<in> set (rule_Port allowdRule)
                  \<and> Itoa (PortRangeMax (example_rule 80 443)) \<in> set (rule_Port allowdRule))))"
    "\<not> (\<exists>allowdRule \<in> set (example_allow [''8080'', ''80-443'']).
            rule_TenantID allowdRule = sg_TenantID example_sg
            \<and> rule_SG allowdRule = sg_Name example_sg
            \<and> (Itoa (PortRangeMin (example_rule 80 80)) @ ''-''
                  @ Itoa (PortRangeMax (example_rule 80 80)) \<in> set (rule_Port allowdRule)
               \<or> (Itoa (PortRangeMin (example_rule 80 80)) \<in> set (rule_Port allowdRule)
                  \<and> Itoa (PortRangeMax (example_rule 80 80)) \<in> set (rule_Port allowdRule))))"
    "\<not> (\<exists>allowdRule \<in> set (example_allow [''8080'', ''80-443'']).
            rule_TenantID allowdRule = sg_TenantID example_sg
            \<and> rule_SG allowdRule = sg_Name example_sg
            \<and> (Itoa (PortRangeMin (example_rule 100 200)) @ ''-''
                  @ Itoa (PortRangeMax (example_rule 100 200)) \<in> set (rule_Port allowdRule)
               \<or> (Itoa (PortRangeMin (example_rule 100 200)) \<in> set (rule_Port allowdRule)
                  \<and> Itoa (PortRangeMax (example_rule 100 200)) \<in> set (rule_Port allowdRule))))"
    by code_simp+
  have 1: "matchAllowdRule (example_allow [''x80-80y'']) example_sg (example_rule 80 80)"
    using matchAllowdRule_iff_first_range [of "example_allow [''x80-80y'']" example_sg
            "example_rule 80 80"] a(1)
    by (simp only: simp_thms)
  have 2: "\<not> matchAllowdRule (example_allow [''180-80'', ''1-2-80-80'']) example_sg
               (example_rule 80 80)"
    using matchAllowdRule_iff_first_range [of "example_allow [''180-80'', ''1-2-80-80'']"
            example_sg "example_rule 80 80"] a(2)
    by (simp only: simp_thms)
  have 3: "matchAllowdRule (example_allow [''22'', ''80-80'']) example_sg (example_rule 80 80)"
    using matchAllowdRule_iff_first_range [of "example_allow [''22'', ''80-80'']" example_sg
            "example_rule 80 80"] s
    by blast
  have 4: "matchAllowdRule (example_allow [''8080'', ''80-443'']) example_sg (example_rule 80 443)"
    using matchAllowdRule_iff_first_range [of "example_allow [''8080'', ''80-443'']" example_sg
            "example_rule 80 443"] wf r(1)
    by blast
  have 5: "\<not> matchAllowdRule (example_allow [''8080'', ''80-443'']) example_sg
               (example_rule 80 80)"
    using matchAllowdRule_iff_first_range [of "example_allow [''8080'', ''80-443'']" example_sg
            "example_rule 80 80"] wf r(2)
    by blast
  have 6: "\<not> matchAllowdRule (example_allow [''8080'', ''80-443'']) example_sg
               (example_rule 100 200)"
    using matchAllowdRule_iff_first_range [of "example_allow [''8080'', ''80-443'']" example_sg
            "example_rule 100 200"] wf r(3)
    by blast
  from 1 2 s(3) 3 wf 4 5 6 show ?thesis
    by (simp only: simp_thms)
qed

text \<open>
  The port strings \<^verbatim>\<open>x80-80y\<close>, \<^verbatim>\<open>80-443-8080\<close> and \<^verbatim>\<open> 22-22\<close> are no range
  expressions and no entry below holds the range expression of the rule's bounds or
  both bounds as literal entries, yet the matcher allows the rules 80-80, 80-443 and
  22-22.
\<close>

theorem matchAllowdRule_allows_embedded_range:
  "matchAllowdRule (example_allow [''x80-80y'']) example_sg (example_rule 80 80)
   \<and> \<not> allowedBySpec (example_allow [''x80-80y'']) example_sg (example_rule 80 80)
   \<and> matchAllowdRule (example_allow [''80-443-8080'']) example_sg (example_rule 80 443)
   \<and> \<not> allowedBySpec (example_allow [''80-443-8080'']) example_sg (example_rule 80 443)
   \<and> matchAllowdRule (example_allow ['' 22-22'']) example_sg (example_rule 22 22)
   \<and> \<not> allowedBySpec (example_allow ['' 22-22'']) example_sg (example_rule 22 22)"
  by code_simp

section \<open>Properties of the policy pass\<close>

lemma postMessage_cases:
  "postMessage w cfg t as st = (r, st') \<Longrightarrow>
     (r = None \<and> st' = st\<lparr>sent := sent st @ [slackMessage cfg t as]\<rparr>) \<or> (r \<noteq> None \<and> st' = st)"
  by (auto simp add: postMessage_def slackMessage_def Let_def split: option.splits)

lemma postAttachments_frame:
  "postAttachments w cfg items st = (r, st') \<Longrightarrow> chk st' = chk st \<and> evals st' = evals st"
proof (induction items arbitrary: st)
  case Nil
  then show ?case by simp
next
  case (Cons item items)
  obtain r1 st1 where p: "postMessage w cfg [] [item] st = (r1, st1)"
    by (cases "postMessage w cfg [] [item] st") auto
  from postMessage_cases [OF p] have f: "chk st1 = chk st \<and> evals st1 = evals st"
    by auto
  show ?case
  proof (cases r1)
    case None
    with Cons.prems p have "postAttachments w cfg items st1 = (r, st')"
      by simp
    from Cons.IH [OF this] f show ?thesis by simp
  next
    case (Some e)
    with Cons.prems p have "st' = st1"
      by simp
    with f show ?thesis by simp
  qed
qed

lemma postAttachments_ok:
  "postAttachments w cfg items st = (None, st') \<Longrightarrow>
     st' = st\<lparr>sent := sent st @ map (\<lambda>item. slackMessage cfg [] [item]) items\<rparr>"
proof (induction items arbitrary: st)
  case Nil
  then show ?case by simp
next
  case (Cons item items)
  obtain r1 st1 where p: "postMessage w cfg [] [item] st = (r1, st1)"
    by (cases "postMessage w cfg [] [item] st") auto
  with Cons.prems have r1: "r1 = None" and rest: "postAttachments w cfg items st1 = (None, st')"
    by (auto split: option.splits)
  from postMessage_cases [OF p] r1
  have st1: "st1 = st\<lparr>sent := sent st @ [slackMessage cfg [] [item]]\<rparr>"
    by auto
  show ?case
    using Cons.IH [OF rest] by (simp add: st1)
qed

lemma postWarning_frame:
  "postWarning w as prefix suffix st = (r, st') \<Longrightarrow> chk st' = chk st \<and> evals st' = evals st"
proof -
  assume a: "postWarning w as prefix suffix st = (r, st')"
  obtain r1 st1 where p1: "postMessage w (Cfg (chk st)) prefix [] st = (r1, st1)"
    by (cases "postMessage w (Cfg (chk st)) prefix [] st") auto
  obtain r2 st2 where p2: "postAttachments w (Cfg (chk st)) as st1 = (r2, st2)"
    by (cases "postAttachments w (Cfg (chk st)) as st1") auto
  obtain r3 st3 where p3: "postMessage w (Cfg (chk st)) suffix [] st2 = (r3, st3)"
    by (cases "postMessage w (Cfg (chk st)) suffix [] st2") auto
  have f1: "chk st1 = chk st \<and> evals st1 = evals st"
    using postMessage_cases [OF p1] by auto
  have f2: "chk st2 = chk st \<and> evals st2 = evals st"
    using postAttachments_frame [OF p2] f1 by simp
  have f3: "chk st3 = chk st \<and> evals st3 = evals st"
    using postMessage_cases [OF p3] f2 by auto
  from a have "st' = st1 \<or> st' = st2 \<or> st' = st3"
    by (auto simp add: postWarning_def Let_def p1 p2 p3 split: option.splits)
  with f1 f2 f3 show ?thesis
    by auto
qed

lemma postWarning_ok:
  assumes "postWarning w as prefix suffix st = (None, st')"
  shows "st' = st\<lparr>sent := sent st @ batchMessages (Cfg (chk st)) as prefix suffix\<rparr>"
proof -
  obtain r1 st1 where p1: "postMessage w (Cfg (chk st)) prefix [] st = (r1, st1)"
    by (cases "postMessage w (Cfg (chk st)) prefix [] st") auto
  obtain r2 st2 where p2: "postAttachments w (Cfg (chk st)) as st1 = (r2, st2)"
    by (cases "postAttachments w (Cfg (chk st)) as st1") auto
  obtain r3 st3 where p3: "postMessage w (Cfg (chk st)) suffix [] st2 = (r3, st3)"
    by (cases "postMessage w (Cfg (chk st)) suffix [] st2") auto
  from assms have ok: "r1 = None" "r2 = None" "r3 = None" "st' = st3"
    by (auto simp add: postWarning_def Let_def p1 p2 p3 split: option.splits)
  have s1: "st1 = st\<lparr>sent := sent st @ [slackMessage (Cfg (chk st)) prefix []]\<rparr>"
    using postMessage_cases [OF p1] ok by auto
  have s2: "st2 = st1\<lparr>sent := sent st1
               @ map (\<lambda>item. slackMessage (Cfg (chk st)) [] [item]) as\<rparr>"
    using postAttachments_ok p2 ok by blast
  have s3: "st3 = st2\<lparr>sent := sent st2 @ [slackMessage (Cfg (chk st)) suffix []]\<rparr>"
    using postMessage_cases [OF p3] ok by auto
  show ?thesis
    by (simp add: ok s3 s2 s1 batchMessages_def)
qed

lemma fieldValue_ID_policyAttachment [simp]:
  "fieldValue ''ID'' (policyAttachment name sg) = sg_ID sg"
  by (simp add: fieldValue_def policyAttachment_def)

text \<open>One call of \<^verbatim>\<open>matchPolicy\<close>: what it may change, and what it does when it returns no error.\<close>

lemma matchPolicy_frame:
  assumes "matchPolicy w q sg st = ((m, r), st')"
  shows "sent st' = sent st" "Cfg (chk st') = Cfg (chk st)" "Projects (chk st') = Projects (chk st)"
    "evals st' = evals st \<or> evals st' = evals st @ [(q, sg)]"
    "Attachments (chk st') = Attachments (chk st)
     \<or> Attachments (chk st') = Attachments (chk st)
          @ [policyAttachment (fst (getProjectNameFromID (sg_TenantID sg) (Projects (chk st)))) sg]"
  using assms
  by (auto simp add: matchPolicy_def Eval_def Let_def
      split: sum.splits list.splits binding.splits if_splits prod.splits)

lemma matchPolicy_ok:
  assumes "matchPolicy w q sg st = ((m, None), st')"
  shows "m = policyVerdict w q sg" "evals st' = evals st @ [(q, sg)]"
    "Attachments (chk st') = Attachments (chk st)
       @ (if m then [policyAttachment (fst (getProjectNameFromID (sg_TenantID sg)
                                               (Projects (chk st)))) sg] else [])"
  using assms
  by (auto simp add: matchPolicy_def Eval_def policyVerdict_def Let_def
      split: sum.splits list.splits binding.splits if_splits prod.splits bool.splits)

text \<open>
  The loop over the groups, whatever its outcome: it sends nothing, it evaluates only
  groups that are not on the dynamic allow-list and it adds findings only for them.
\<close>

lemma policyGroupsLoop_any:
  assumes "policyGroupsLoop w q sgs allowed_sg ex st = (r, st')"
  shows "sent st' = sent st \<and> Cfg (chk st') = Cfg (chk st) \<and> Projects (chk st') = Projects (chk st)
    \<and> (\<exists>E F. evals st' = evals st @ E
          \<and> Attachments (chk st') = Attachments (chk st) @ F
          \<and> (\<forall>e \<in> set E. sg_ID (snd e) \<notin> set allowed_sg)
          \<and> (\<forall>a \<in> set F. fieldValue ''ID'' a \<notin> set allowed_sg))"
  using assms
proof (induction sgs arbitrary: ex st)
  case Nil
  then show ?case by simp
next
  case (Cons sg sgs)
  show ?case
  proof (cases "contain allowed_sg (sg_ID sg)")
    case True
    with Cons.prems have "policyGroupsLoop w q sgs allowed_sg ex st = (r, st')"
      by simp
    from Cons.IH [OF this] show ?thesis .
  next
    case False
    then have notin: "sg_ID sg \<notin> set allowed_sg"
      by (simp add: contain_iff)
    obtain m e st1 where mp: "matchPolicy w q sg st = ((m, e), st1)"
      by (cases "matchPolicy w q sg st") auto
    note fr = matchPolicy_frame [OF mp]
    have one: "\<exists>E F. evals st1 = evals st @ E
          \<and> Attachments (chk st1) = Attachments (chk st) @ F
          \<and> (\<forall>e \<in> set E. sg_ID (snd e) \<notin> set allowed_sg)
          \<and> (\<forall>a \<in> set F. fieldValue ''ID'' a \<notin> set allowed_sg)"
    proof -
      from fr(4) obtain E where E: "evals st1 = evals st @ E" "set E \<subseteq> {(q, sg)}"
        by (metis append_Nil2 empty_set empty_subsetI list.simps(15) subset_refl)
      from fr(5) obtain F where F: "Attachments (chk st1) = Attachments (chk st) @ F"
        "set F \<subseteq> {policyAttachment (fst (getProjectNameFromID (sg_TenantID sg)
                                             (Projects (chk st)))) sg}"
        by (metis append_Nil2 empty_set empty_subsetI list.simps(15) subset_refl)
      from E(2) F(2) notin have "(\<forall>e \<in> set E. sg_ID (snd e) \<notin> set allowed_sg)
          \<and> (\<forall>a \<in> set F. fieldValue ''ID'' a \<notin> set allowed_sg)"
        by auto
      with E(1) F(1) show ?thesis
        by blast
    qed
    show ?thesis
    proof (cases e)
      case (Some err)
      with Cons.prems False mp have "st' = st1"
        by simp
      with one fr show ?thesis
        by simp
    next
      case None
      with Cons.prems False mp
      have "policyGroupsLoop w q sgs allowed_sg (if m then True else ex) st1 = (r, st')"
        by simp
      from Cons.IH [OF this] obtain E2 F2 where
        two: "sent st' = sent st1" "Cfg (chk st') = Cfg (chk st1)"
          "Projects (chk st') = Projects (chk st1)"
          "evals st' = evals st1 @ E2" "Attachments (chk st') = Attachments (chk st1) @ F2"
          "\<forall>e \<in> set E2. sg_ID (snd e) \<notin> set allowed_sg"
          "\<forall>a \<in> set F2. fieldValue ''ID'' a \<notin> set allowed_sg"
        by blast
      from one obtain E1 F1 where
        one': "evals st1 = evals st @ E1" "Attachments (chk st1) = Attachments (chk st) @ F1"
          "\<forall>e \<in> set E1. sg_ID (snd e) \<notin> set allowed_sg"
          "\<forall>a \<in> set F1. fieldValue ''ID'' a \<notin> set allowed_sg"
        by blast
      have "evals st' = evals st @ (E1 @ E2)"
        "Attachments (chk st') = Attachments (chk st) @ (F1 @ F2)"
        "\<forall>e \<in> set (E1 @ E2). sg_ID (snd e) \<notin> set allowed_sg"
        "\<forall>a \<in> set (F1 @ F2). fieldValue ''ID'' a \<notin> set allowed_sg"
        using two one' by auto
      then have "\<exists>E F. evals st' = evals st @ E
          \<and> Attachments (chk st') = Attachments (chk st) @ F
          \<and> (\<forall>e \<in> set E. sg_ID (snd e) \<notin> set allowed_sg)
          \<and> (\<forall>a \<in> set F. fieldValue ''ID'' a \<notin> set allowed_sg)"
        by blast
      with two fr show ?thesis
        by simp
    qed
  qed
qed

text \<open>The loop over the groups when it returns no error.\<close>

lemma policyGroupsLoop_ok:
  assumes "policyGroupsLoop w q sgs allowed_sg ex st = (Inr ex', st')"
  shows "evals st' = evals st @ map (\<lambda>sg. (q, sg)) (filter (\<lambda>sg. sg_ID sg \<notin> set allowed_sg) sgs)
    \<and> Attachments (chk st') = Attachments (chk st)
        @ map (\<lambda>sg. policyAttachment (fst (getProjectNameFromID (sg_TenantID sg)
                                              (Projects (chk st)))) sg)
            (filter (\<lambda>sg. sg_ID sg \<notin> set allowed_sg \<and> policyVerdict w q sg) sgs)
    \<and> ex' = (ex \<or> filter (\<lambda>sg. sg_ID sg \<notin> set allowed_sg \<and> policyVerdict w q sg) sgs \<noteq> [])"
  using assms
proof (induction sgs arbitrary: ex st)
  case Nil
  then show ?case by simp
next
  case (Cons sg sgs)
  show ?case
  proof (cases "contain allowed_sg (sg_ID sg)")
    case True
    with Cons.prems have "policyGroupsLoop w q sgs allowed_sg ex st = (Inr ex', st')"
      by simp
    from Cons.IH [OF this] True show ?thesis
      by (simp add: contain_iff)
  next
    case False
    then have notin: "sg_ID sg \<notin> set allowed_sg"
      by (simp add: contain_iff)
    obtain m e st1 where mp: "matchPolicy w q sg st = ((m, e), st1)"
      by (cases "matchPolicy w q sg st") auto
    from Cons.prems False mp have e: "e = None"
      by (cases e) auto
    with Cons.prems False mp
    have rest: "policyGroupsLoop w q sgs allowed_sg (if m then True else ex) st1 = (Inr ex', st')"
      by simp
    note ok = matchPolicy_ok [OF mp [unfolded e]]
    note fr = matchPolicy_frame [OF mp]
    from Cons.IH [OF rest] show ?thesis
      using notin ok fr(3) by (cases "policyVerdict w q sg") simp_all
  qed
qed
text \<open>
  Whatever the outcome, the evaluations the loop over the groups has requested are an
  initial part of the evaluations it requests when nothing fails.
\<close>

lemma policyGroupsLoop_prefix:
  assumes "policyGroupsLoop w q sgs allowed_sg ex st = (r, st')"
  shows "\<exists>E E'. evals st' = evals st @ E
           \<and> map (\<lambda>sg. (q, sg)) (filter (\<lambda>sg. sg_ID sg \<notin> set allowed_sg) sgs) = E @ E'"
  using assms
proof (induction sgs arbitrary: ex st)
  case Nil
  then show ?case by simp
next
  case (Cons sg sgs)
  let ?rest = "map (\<lambda>sg. (q, sg)) (filter (\<lambda>sg. sg_ID sg \<notin> set allowed_sg) sgs)"
  show ?case
  proof (cases "contain allowed_sg (sg_ID sg)")
    case True
    with Cons.prems have "policyGroupsLoop w q sgs allowed_sg ex st = (r, st')"
      by simp
    from Cons.IH [OF this] True show ?thesis
      by (simp add: contain_iff)
  next
    case False
    then have full: "map (\<lambda>sg. (q, sg)) (filter (\<lambda>sg. sg_ID sg \<notin> set allowed_sg) (sg # sgs))
                      = (q, sg) # ?rest"
      by (simp add: contain_iff)
    obtain m e st1 where mp: "matchPolicy w q sg st = ((m, e), st1)"
      by (cases "matchPolicy w q sg st") auto
    show ?thesis
    proof (cases e)
      case (Some err)
      with Cons.prems False mp have st': "st' = st1"
        by simp
      from matchPolicy_frame(4) [OF mp]
      consider "evals st1 = evals st @ []" | "evals st1 = evals st @ [(q, sg)]"
        by auto
      then show ?thesis
      proof cases
        case 1
        then have "evals st' = evals st @ [] \<and> (q, sg) # ?rest = [] @ ((q, sg) # ?rest)"
          by (simp add: st')
        then show ?thesis
          unfolding full by blast
      next
        case 2
        then have "evals st' = evals st @ [(q, sg)] \<and> (q, sg) # ?rest = [(q, sg)] @ ?rest"
          by (simp add: st')
        then show ?thesis
          unfolding full by blast
      qed
    next
      case None
      with Cons.prems False mp
      have "policyGroupsLoop w q sgs allowed_sg (if m then True else ex) st1 = (r, st')"
        by simp
      from Cons.IH [OF this] obtain E2 E2' where
        two: "evals st' = evals st1 @ E2" "?rest = E2 @ E2'"
        by blast
      from matchPolicy_ok(2) [OF mp [unfolded None]] two
      have "evals st' = evals st @ ((q, sg) # E2) \<and> (q, sg) # ?rest = ((q, sg) # E2) @ E2'"
        by simp
      then show ?thesis
        unfolding full by blast
    qed
  qed
qed

lemma policyFindings_Nil_iff:
  "policyFindings w ps sgs allowed_sg policy = [] \<longleftrightarrow>
     filter (\<lambda>sg. sg_ID sg \<notin> set allowed_sg \<and> policyVerdict w (policyPaths policy) sg) sgs = []"
  by (simp add: policyFindings_def)

text \<open>The loop over the policies, whatever its outcome.\<close>

lemma policiesLoop_any:
  assumes "policiesLoop w policies sgs allowed_sg st = (r, st')"
  shows "Cfg (chk st') = Cfg (chk st) \<and> Projects (chk st') = Projects (chk st)
    \<and> (\<exists>E F. evals st' = evals st @ E
          \<and> Attachments (chk st') = Attachments (chk st) @ F
          \<and> (\<forall>e \<in> set E. sg_ID (snd e) \<notin> set allowed_sg)
          \<and> (\<forall>a \<in> set F. fieldValue ''ID'' a \<notin> set allowed_sg))"
  using assms
proof (induction policies arbitrary: st)
  case Nil
  then show ?case by simp
next
  case (Cons policy policies)
  show ?case
  proof (cases "rego_PrepareForEval w (policyPaths policy)")
    case (Some err)
    with Cons.prems have "st' = st"
      by simp
    then show ?thesis by simp
  next
    case None
    obtain g st1 where gl:
      "policyGroupsLoop w (policyPaths policy) sgs allowed_sg False st = (g, st1)"
      by (cases "policyGroupsLoop w (policyPaths policy) sgs allowed_sg False st") auto
    from policyGroupsLoop_any [OF gl] obtain E1 F1 where
      one: "Cfg (chk st1) = Cfg (chk st)" "Projects (chk st1) = Projects (chk st)"
        "evals st1 = evals st @ E1" "Attachments (chk st1) = Attachments (chk st) @ F1"
        "\<forall>e \<in> set E1. sg_ID (snd e) \<notin> set allowed_sg"
        "\<forall>a \<in> set F1. fieldValue ''ID'' a \<notin> set allowed_sg"
      by blast
    obtain pr st2 where pw:
      "postWarning w (Attachments (chk st1)) (policy_PrefixMessage policy)
         (policy_SuffixMessage policy) st1 = (pr, st2)"
      by (cases "postWarning w (Attachments (chk st1)) (policy_PrefixMessage policy)
                   (policy_SuffixMessage policy) st1") auto
    note f2 = postWarning_frame [OF pw]
    from Cons.prems None gl pw
    consider (stop1) "st' = st1" | (stop2) "st' = st2"
      | (go1) "policiesLoop w policies sgs allowed_sg st1 = (r, st')"
      | (go2) "policiesLoop w policies sgs allowed_sg st2 = (r, st')"
      by (auto split: sum.splits option.splits if_splits)
    then show ?thesis
    proof cases
      case stop1
      with one show ?thesis by blast
    next
      case stop2
      with one f2 show ?thesis by auto
    next
      case go1
      from Cons.IH [OF go1] obtain E2 F2 where
        two: "Cfg (chk st') = Cfg (chk st1)" "Projects (chk st') = Projects (chk st1)"
          "evals st' = evals st1 @ E2" "Attachments (chk st') = Attachments (chk st1) @ F2"
          "\<forall>e \<in> set E2. sg_ID (snd e) \<notin> set allowed_sg"
          "\<forall>a \<in> set F2. fieldValue ''ID'' a \<notin> set allowed_sg"
        by blast
      have "evals st' = evals st @ (E1 @ E2)"
        "Attachments (chk st') = Attachments (chk st) @ (F1 @ F2)"
        "\<forall>e \<in> set (E1 @ E2). sg_ID (snd e) \<notin> set allowed_sg"
        "\<forall>a \<in> set (F1 @ F2). fieldValue ''ID'' a \<notin> set allowed_sg"
        using one two by auto
      then have "\<exists>E F. evals st' = evals st @ E
          \<and> Attachments (chk st') = Attachments (chk st) @ F
          \<and> (\<forall>e \<in> set E. sg_ID (snd e) \<notin> set allowed_sg)
          \<and> (\<forall>a \<in> set F. fieldValue ''ID'' a \<notin> set allowed_sg)"
        by blast
      with one two show ?thesis by simp
    next
      case go2
      from Cons.IH [OF go2] obtain E2 F2 where
        two: "Cfg (chk st') = Cfg (chk st2)" "Projects (chk st') = Projects (chk st2)"
          "evals st' = evals st2 @ E2" "Attachments (chk st') = Attachments (chk st2) @ F2"
          "\<forall>e \<in> set E2. sg_ID (snd e) \<notin> set allowed_sg"
          "\<forall>a \<in> set F2. fieldValue ''ID'' a \<notin> set allowed_sg"
        by blast
      have "evals st' = evals st @ (E1 @ E2)"
        "Attachments (chk st') = Attachments (chk st) @ (F1 @ F2)"
        "\<forall>e \<in> set (E1 @ E2). sg_ID (snd e) \<notin> set allowed_sg"
        "\<forall>a \<in> set (F1 @ F2). fieldValue ''ID'' a \<notin> set allowed_sg"
        using one two f2 by auto
      then have "\<exists>E F. evals st' = evals st @ E
          \<and> Attachments (chk st') = Attachments (chk st) @ F
          \<and> (\<forall>e \<in> set E. sg_ID (snd e) \<notin> set allowed_sg)
          \<and> (\<forall>a \<in> set F. fieldValue ''ID'' a \<notin> set allowed_sg)"
        by blast
      with one two f2 show ?thesis by simp
    qed
  qed
qed

text \<open>
  The loop over the policies when it returns no error, started with the findings \<open>A\<close>
  in the accumulator: every policy adds its findings behind the ones already there,
  and the batch of a policy that matched carries the whole accumulator.
\<close>

lemma policiesLoop_ok:
  assumes "policiesLoop w policies sgs allowed_sg st = (None, st')"
  shows "evals st' = evals st @ concat (map (\<lambda>policy. policyQueries policy sgs allowed_sg) policies)
    \<and> Attachments (chk st') = Attachments (chk st)
        @ concat (map (policyFindings w (Projects (chk st)) sgs allowed_sg) policies)
    \<and> sent st' = sent st
        @ concat (map (\<lambda>i.
            if DryRun (Cfg (chk st))
               \<or> policyFindings w (Projects (chk st)) sgs allowed_sg (policies ! i) = [] then []
            else batchMessages (Cfg (chk st))
                   (Attachments (chk st)
                    @ concat (map (policyFindings w (Projects (chk st)) sgs allowed_sg)
                                (take (Suc i) policies)))
                   (policy_PrefixMessage (policies ! i)) (policy_SuffixMessage (policies ! i)))
          [0 ..< length policies])"
  using assms
proof (induction policies arbitrary: st)
  case Nil
  then show ?case by simp
next
  case (Cons policy policies)
  let ?F = "policyFindings w (Projects (chk st)) sgs allowed_sg"
  from Cons.prems have prep: "rego_PrepareForEval w (policyPaths policy) = None"
    by (cases "rego_PrepareForEval w (policyPaths policy)") auto
  obtain g st1 where gl:
    "policyGroupsLoop w (policyPaths policy) sgs allowed_sg False st = (g, st1)"
    by (cases "policyGroupsLoop w (policyPaths policy) sgs allowed_sg False st") auto
  from Cons.prems prep gl obtain ex where g: "g = Inr ex"
    by (cases g) auto
  note any1 = policyGroupsLoop_any [OF gl]
  from policyGroupsLoop_ok [OF gl [unfolded g]]
  have ok1: "evals st1 = evals st @ policyQueries policy sgs allowed_sg"
    "Attachments (chk st1) = Attachments (chk st) @ ?F policy"
    "ex = (?F policy \<noteq> [])"
    by (simp_all add: policyQueries_def policyFindings_def)
  show ?case
  proof (cases "ex \<and> \<not> DryRun (Cfg (chk st1))")
    case True
    obtain pr st2 where pw:
      "postWarning w (Attachments (chk st1)) (policy_PrefixMessage policy)
         (policy_SuffixMessage policy) st1 = (pr, st2)"
      by (cases "postWarning w (Attachments (chk st1)) (policy_PrefixMessage policy)
                   (policy_SuffixMessage policy) st1") auto
    from Cons.prems prep gl g True pw have pr: "pr = None"
      and rest: "policiesLoop w policies sgs allowed_sg st2 = (None, st')"
      by (auto split: option.splits)
    from postWarning_ok [OF pw [unfolded pr]]
    have st2: "st2 = st1\<lparr>sent := sent st1
                 @ batchMessages (Cfg (chk st1)) (Attachments (chk st1))
                     (policy_PrefixMessage policy) (policy_SuffixMessage policy)\<rparr>" .
    have f2: "chk st2 = chk st1" "evals st2 = evals st1"
      "sent st2 = sent st @ batchMessages (Cfg (chk st)) (Attachments (chk st) @ ?F policy)
                     (policy_PrefixMessage policy) (policy_SuffixMessage policy)"
      using any1 ok1 by (simp_all add: st2)
    from Cons.IH [OF rest] True any1 ok1 f2 show ?thesis
      by (simp add: map_upt_Suc del: upt_Suc cong: if_cong)
  next
    case False
    with Cons.prems prep gl g
    have rest: "policiesLoop w policies sgs allowed_sg st1 = (None, st')"
      by (auto split: option.splits)
    from False any1 ok1 have none: "DryRun (Cfg (chk st)) \<or> ?F policy = []"
      by auto
    from Cons.IH [OF rest] none any1 ok1 show ?thesis
      by (simp add: map_upt_Suc del: upt_Suc cong: if_cong)
  qed
qed
lemma policiesLoop_prefix:
  assumes "policiesLoop w policies sgs allowed_sg st = (r, st')"
  shows "\<exists>E E'. evals st' = evals st @ E
           \<and> concat (map (\<lambda>policy. policyQueries policy sgs allowed_sg) policies) = E @ E'"
  using assms
proof (induction policies arbitrary: st)
  case Nil
  then show ?case by simp
next
  case (Cons policy policies)
  let ?rest = "concat (map (\<lambda>policy. policyQueries policy sgs allowed_sg) policies)"
  have full: "concat (map (\<lambda>policy. policyQueries policy sgs allowed_sg) (policy # policies))
                = policyQueries policy sgs allowed_sg @ ?rest"
    by simp
  show ?case
  proof (cases "rego_PrepareForEval w (policyPaths policy)")
    case (Some err)
    with Cons.prems have "st' = st"
      by simp
    then have "evals st' = evals st @ []
        \<and> policyQueries policy sgs allowed_sg @ ?rest
            = [] @ (policyQueries policy sgs allowed_sg @ ?rest)"
      by simp
    then show ?thesis
      unfolding full by blast
  next
    case None
    obtain g st1 where gl:
      "policyGroupsLoop w (policyPaths policy) sgs allowed_sg False st = (g, st1)"
      by (cases "policyGroupsLoop w (policyPaths policy) sgs allowed_sg False st") auto
    from policyGroupsLoop_prefix [OF gl] obtain E1 E1' where
      one: "evals st1 = evals st @ E1" "policyQueries policy sgs allowed_sg = E1 @ E1'"
      by (auto simp add: policyQueries_def)
    show ?thesis
    proof (cases g)
      case (Inl err)
      with Cons.prems None gl have "st' = st1"
        by simp
      with one have "evals st' = evals st @ E1
          \<and> policyQueries policy sgs allowed_sg @ ?rest = E1 @ (E1' @ ?rest)"
        by simp
      then show ?thesis
        unfolding full by blast
    next
      case (Inr ex)
      from policyGroupsLoop_ok [OF gl [unfolded Inr]]
      have all1: "evals st1 = evals st @ policyQueries policy sgs allowed_sg"
        by (simp add: policyQueries_def)
      obtain pr st2 where pw:
        "postWarning w (Attachments (chk st1)) (policy_PrefixMessage policy)
           (policy_SuffixMessage policy) st1 = (pr, st2)"
        by (cases "postWarning w (Attachments (chk st1)) (policy_PrefixMessage policy)
                     (policy_SuffixMessage policy) st1") auto
      note f2 = postWarning_frame [OF pw]
      from Cons.prems None gl Inr pw
      consider (stop) "st' = st2"
        | (go1) "policiesLoop w policies sgs allowed_sg st1 = (r, st')"
        | (go2) "policiesLoop w policies sgs allowed_sg st2 = (r, st')"
        by (auto split: option.splits if_splits)
      then show ?thesis
      proof cases
        case stop
        with all1 f2 have "evals st' = evals st @ policyQueries policy sgs allowed_sg
            \<and> policyQueries policy sgs allowed_sg @ ?rest
                = policyQueries policy sgs allowed_sg @ ?rest"
          by simp
        then show ?thesis
          unfolding full by blast
      next
        case go1
        from Cons.IH [OF go1] obtain E2 E2' where
          two: "evals st' = evals st1 @ E2" "?rest = E2 @ E2'"
          by blast
        with all1 have "evals st' = evals st @ (policyQueries policy sgs allowed_sg @ E2)
            \<and> policyQueries policy sgs allowed_sg @ ?rest
                = (policyQueries policy sgs allowed_sg @ E2) @ E2'"
          by simp
        then show ?thesis
          unfolding full by blast
      next
        case go2
        from Cons.IH [OF go2] obtain E2 E2' where
          two: "evals st' = evals st2 @ E2" "?rest = E2 @ E2'"
          by blast
        with all1 f2 have "evals st' = evals st @ (policyQueries policy sgs allowed_sg @ E2)
            \<and> policyQueries policy sgs allowed_sg @ ?rest
                = (policyQueries policy sgs allowed_sg @ E2) @ E2'"
          by simp
        then show ?thesis
          unfolding full by blast
      qed
    qed
  qed
qed

lemma openAccessPhase_frame:
  assumes "openAccessPhase w sgs ports fips allowed_sg st = (r, st')"
  shows "evals st' = evals st \<and> Cfg (chk st') = Cfg (chk st) \<and> Projects (chk st') = Projects (chk st)"
proof -
  let ?c = "(chk st)\<lparr>Attachments := Attachments (chk st)
               @ passFindings (Cfg (chk st)) (Projects (chk st)) sgs ports fips allowed_sg\<rparr>"
  let ?st1 = "st\<lparr>chk := ?c\<rparr>"
  obtain pr st2 where pw:
    "postWarning w (Attachments ?c) (PrefixMessage (Cfg ?c)) (SuffixMessage (Cfg ?c)) ?st1 = (pr, st2)"
    by (cases "postWarning w (Attachments ?c) (PrefixMessage (Cfg ?c)) (SuffixMessage (Cfg ?c)) ?st1")
       auto
  note f = postWarning_frame [OF pw]
  from assms have "st' = ?st1 \<or> st' = st2"
    using pw by (auto simp add: openAccessPhase_def openAccessLoop_eq Let_def
        split: if_splits option.splits)
  with f show ?thesis
    by auto
qed

text \<open>
  A run that returns no error has fetched the allow-list, the projects and the
  groups, has finished the open-access pass, and ends with the policy pass.
\<close>

lemma Run_ok_phases:
  assumes "Run w st = (None, st')"
  obtains len allowed_sg ps ports fips sgs st1 st2 where
    "redis_LLen w = Inr len" "redis_LRange w len = Inr allowed_sg"
    "os_fetchProjects w = Inr ps" "os_fetchSecurityGroups w = Inr sgs"
    "Projects (chk st1) = ps" "Policies (Cfg (chk st1)) = Policies (Cfg (chk st))"
    "evals st1 = evals st"
    "openAccessPhase w sgs ports fips allowed_sg st1 = (None, st2)"
    "policyPhase w sgs allowed_sg st2 = (None, st')"
proof -
  from assms obtain len where a1: "redis_LLen w = Inr len"
    by (cases "redis_LLen w") (auto simp add: Run_def)
  from assms a1 obtain allowed_sg where a2: "redis_LRange w len = Inr allowed_sg"
    by (cases "redis_LRange w len") (auto simp add: Run_def)
  from assms a1 a2 have a3: "os_authenticate w = None"
    by (cases "os_authenticate w") (auto simp add: Run_def)
  from assms a1 a2 a3 obtain ps where a4: "os_fetchProjects w = Inr ps"
    by (cases "os_fetchProjects w") (auto simp add: Run_def)
  let ?c1 = "(chk st)\<lparr>Projects := ps\<rparr>"
  let ?c2 = "?c1\<lparr>Cfg := (Cfg ?c1)\<lparr>Rules := map (resolveTenantID ps) (Rules (Cfg ?c1))\<rparr>\<rparr>"
  let ?st1 = "st\<lparr>chk := ?c2\<rparr>"
  from assms a1 a2 a3 a4 obtain ports where a5: "os_fetchPorts w = Inr ports"
    by (cases "os_fetchPorts w") (auto simp add: Run_def Let_def)
  from assms a1 a2 a3 a4 a5 obtain fips where a6: "os_fetchFloatingIPS w = Inr fips"
    by (cases "os_fetchFloatingIPS w") (auto simp add: Run_def Let_def)
  from assms a1 a2 a3 a4 a5 a6 obtain sgs where a7: "os_fetchSecurityGroups w = Inr sgs"
    by (cases "os_fetchSecurityGroups w") (auto simp add: Run_def Let_def)
  obtain r2 st2 where a8: "openAccessPhase w sgs ports fips allowed_sg ?st1 = (r2, st2)"
    by (cases "openAccessPhase w sgs ports fips allowed_sg ?st1") auto
  from assms a1 a2 a3 a4 a5 a6 a7 a8 have r2: "r2 = None"
    and a9: "policyPhase w sgs allowed_sg st2 = (None, st')"
    by (cases r2; simp add: Run_def Let_def)+
  show ?thesis
    by (rule that [OF a1 a2 a4 a7 _ _ _ a8 [unfolded r2] a9]) simp_all
qed

text \<open>
  Whatever the outcome, the findings in the accumulator are those of the evaluations
  requested: every evaluation the predicate holds of has added one finding.
\<close>

lemma evaluationFindings_simps [simp]:
  "evaluationFindings w ps [] = []"
  "evaluationFindings w ps (E @ E') = evaluationFindings w ps E @ evaluationFindings w ps E'"
  "evaluationFindings w ps [(q, sg)] =
     (if policyVerdict w q sg
      then [policyAttachment (fst (getProjectNameFromID (sg_TenantID sg) ps)) sg] else [])"
  by (simp_all add: evaluationFindings_def)

lemma matchPolicy_link:
  assumes "matchPolicy w q sg st = ((m, r), st')"
  shows "\<exists>E. evals st' = evals st @ E
     \<and> Attachments (chk st') = Attachments (chk st) @ evaluationFindings w (Projects (chk st)) E"
proof -
  from assms have
    "(evals st' = evals st @ [] \<and> Attachments (chk st') = Attachments (chk st)
        @ evaluationFindings w (Projects (chk st)) [])
     \<or> (evals st' = evals st @ [(q, sg)] \<and> Attachments (chk st') = Attachments (chk st)
        @ evaluationFindings w (Projects (chk st)) [(q, sg)])"
    by (auto simp add: matchPolicy_def Eval_def policyVerdict_def Let_def
        split: sum.splits list.splits binding.splits if_splits prod.splits bool.splits)
  then show ?thesis
    by blast
qed

lemma policyGroupsLoop_link:
  assumes "policyGroupsLoop w q sgs allowed_sg ex st = (r, st')"
  shows "\<exists>E. evals st' = evals st @ E
     \<and> Attachments (chk st') = Attachments (chk st) @ evaluationFindings w (Projects (chk st)) E"
  using assms
proof (induction sgs arbitrary: ex st)
  case Nil
  then have "evals st' = evals st @ []
     \<and> Attachments (chk st') = Attachments (chk st) @ evaluationFindings w (Projects (chk st)) []"
    by simp
  then show ?case
    by blast
next
  case (Cons sg sgs)
  show ?case
  proof (cases "contain allowed_sg (sg_ID sg)")
    case True
    with Cons.prems have "policyGroupsLoop w q sgs allowed_sg ex st = (r, st')"
      by simp
    from Cons.IH [OF this] show ?thesis .
  next
    case False
    obtain m e st1 where mp: "matchPolicy w q sg st = ((m, e), st1)"
      by (cases "matchPolicy w q sg st") auto
    from matchPolicy_link [OF mp] obtain E1 where
      one: "evals st1 = evals st @ E1"
        "Attachments (chk st1) = Attachments (chk st)
           @ evaluationFindings w (Projects (chk st)) E1"
      by blast
    note fr = matchPolicy_frame [OF mp]
    show ?thesis
    proof (cases e)
      case (Some err)
      with Cons.prems False mp have "st' = st1"
        by simp
      with one show ?thesis
        by blast
    next
      case None
      with Cons.prems False mp
      have "policyGroupsLoop w q sgs allowed_sg (if m then True else ex) st1 = (r, st')"
        by simp
      from Cons.IH [OF this] obtain E2 where
        two: "evals st' = evals st1 @ E2"
          "Attachments (chk st') = Attachments (chk st1)
             @ evaluationFindings w (Projects (chk st1)) E2"
        by blast
      from one two fr(3)
      have "evals st' = evals st @ (E1 @ E2)
        \<and> Attachments (chk st') = Attachments (chk st)
            @ evaluationFindings w (Projects (chk st)) (E1 @ E2)"
        by simp
      then show ?thesis
        by blast
    qed
  qed
qed

lemma policiesLoop_link:
  assumes "policiesLoop w policies sgs allowed_sg st = (r, st')"
  shows "\<exists>E. evals st' = evals st @ E
     \<and> Attachments (chk st') = Attachments (chk st) @ evaluationFindings w (Projects (chk st)) E"
  using assms
proof (induction policies arbitrary: st)
  case Nil
  then have "evals st' = evals st @ []
     \<and> Attachments (chk st') = Attachments (chk st) @ evaluationFindings w (Projects (chk st)) []"
    by simp
  then show ?case
    by blast
next
  case (Cons policy policies)
  show ?case
  proof (cases "rego_PrepareForEval w (policyPaths policy)")
    case (Some err)
    with Cons.prems have "evals st' = evals st @ []
     \<and> Attachments (chk st') = Attachments (chk st) @ evaluationFindings w (Projects (chk st)) []"
      by simp
    then show ?thesis
      by blast
  next
    case None
    obtain g st1 where gl:
      "policyGroupsLoop w (policyPaths policy) sgs allowed_sg False st = (g, st1)"
      by (cases "policyGroupsLoop w (policyPaths policy) sgs allowed_sg False st") auto
    from policyGroupsLoop_link [OF gl] obtain E1 where
      one: "evals st1 = evals st @ E1"
        "Attachments (chk st1) = Attachments (chk st)
           @ evaluationFindings w (Projects (chk st)) E1"
      by blast
    from policyGroupsLoop_any [OF gl] have ps1: "Projects (chk st1) = Projects (chk st)"
      by simp
    obtain pr st2 where pw:
      "postWarning w (Attachments (chk st1)) (policy_PrefixMessage policy)
         (policy_SuffixMessage policy) st1 = (pr, st2)"
      by (cases "postWarning w (Attachments (chk st1)) (policy_PrefixMessage policy)
                   (policy_SuffixMessage policy) st1") auto
    note f2 = postWarning_frame [OF pw]
    from Cons.prems None gl pw
    consider (stop) "st' = st1 \<or> st' = st2"
      | (go1) "policiesLoop w policies sgs allowed_sg st1 = (r, st')"
      | (go2) "policiesLoop w policies sgs allowed_sg st2 = (r, st')"
      by (auto split: option.splits if_splits sum.splits)
    then show ?thesis
    proof cases
      case stop
      with one f2 have "evals st' = evals st @ E1
        \<and> Attachments (chk st') = Attachments (chk st)
            @ evaluationFindings w (Projects (chk st)) E1"
        by auto
      then show ?thesis
        by blast
    next
      case go1
      from Cons.IH [OF go1] obtain E2 where
        two: "evals st' = evals st1 @ E2"
          "Attachments (chk st') = Attachments (chk st1)
             @ evaluationFindings w (Projects (chk st1)) E2"
        by blast
      from one two ps1
      have "evals st' = evals st @ (E1 @ E2)
        \<and> Attachments (chk st') = Attachments (chk st)
            @ evaluationFindings w (Projects (chk st)) (E1 @ E2)"
        by simp
      then show ?thesis
        by blast
    next
      case go2
      from Cons.IH [OF go2] obtain E2 where
        two: "evals st' = evals st2 @ E2"
          "Attachments (chk st') = Attachments (chk st2)
             @ evaluationFindings w (Projects (chk st2)) E2"
        by blast
      from one two ps1 f2
      have "evals st' = evals st @ (E1 @ E2)
        \<and> Attachments (chk st') = Attachments (chk st)
            @ evaluationFindings w (Projects (chk st)) (E1 @ E2)"
        by simp
      then show ?thesis
        by blast
    qed
  qed
qed

text \<open>
  The pass depends on the encoder and the engine only through their answers about the
  groups that are not on the dynamic allow-list.
\<close>

lemma postMessage_same:
  "slack_PostMessage w' = slack_PostMessage w \<Longrightarrow>
     postMessage w' cfg t as st = postMessage w cfg t as st"
  by (simp add: postMessage_def)

lemma postAttachments_same:
  assumes "slack_PostMessage w' = slack_PostMessage w"
  shows "postAttachments w' cfg items st = postAttachments w cfg items st"
proof (induction items arbitrary: st)
  case Nil
  show ?case by simp
next
  case (Cons item items)
  show ?case
    by (simp add: postMessage_same [OF assms] Cons.IH split: prod.splits option.splits)
qed

lemma postWarning_same:
  assumes "slack_PostMessage w' = slack_PostMessage w"
  shows "postWarning w' as prefix suffix st = postWarning w as prefix suffix st"
  by (simp add: postWarning_def Let_def postMessage_same [OF assms]
      postAttachments_same [OF assms] split: prod.splits option.splits)

lemma matchPolicy_same:
  "groupAnswer w' q sg = groupAnswer w q sg \<Longrightarrow> matchPolicy w' q sg st = matchPolicy w q sg st"
  by (auto simp add: matchPolicy_def Eval_def groupAnswer_def split: sum.splits)

lemma policyGroupsLoop_same:
  assumes "\<forall>sg \<in> set sgs. sg_ID sg \<notin> set allowed_sg \<longrightarrow> groupAnswer w' q sg = groupAnswer w q sg"
  shows "policyGroupsLoop w' q sgs allowed_sg ex st = policyGroupsLoop w q sgs allowed_sg ex st"
  using assms
proof (induction sgs arbitrary: ex st)
  case Nil
  show ?case by simp
next
  case (Cons sg sgs)
  then have IH: "policyGroupsLoop w' q sgs allowed_sg ex' st'
      = policyGroupsLoop w q sgs allowed_sg ex' st'" for ex' st'
    by simp
  show ?case
  proof (cases "contain allowed_sg (sg_ID sg)")
    case True
    then show ?thesis
      by (simp add: IH)
  next
    case False
    then have "sg_ID sg \<notin> set allowed_sg"
      by (simp add: contain_iff)
    with Cons.prems have "groupAnswer w' q sg = groupAnswer w q sg"
      by simp
    then have "matchPolicy w' q sg st = matchPolicy w q sg st"
      by (rule matchPolicy_same)
    with False show ?thesis
      by (simp add: IH split: prod.splits option.splits)
  qed
qed

lemma policiesLoop_same:
  assumes "slack_PostMessage w' = slack_PostMessage w"
    "rego_PrepareForEval w' = rego_PrepareForEval w"
    "sameAnswersOffList w w' policies sgs allowed_sg"
  shows "policiesLoop w' policies sgs allowed_sg st = policiesLoop w policies sgs allowed_sg st"
  using assms(3)
proof (induction policies arbitrary: st)
  case Nil
  show ?case by simp
next
  case (Cons policy policies)
  then have IH: "policiesLoop w' policies sgs allowed_sg st'
      = policiesLoop w policies sgs allowed_sg st'" for st'
    by (simp add: sameAnswersOffList_def)
  from Cons.prems have "\<forall>sg \<in> set sgs. sg_ID sg \<notin> set allowed_sg \<longrightarrow>
      groupAnswer w' (policyPaths policy) sg = groupAnswer w (policyPaths policy) sg"
    by (simp add: sameAnswersOffList_def)
  then have gl: "policyGroupsLoop w' (policyPaths policy) sgs allowed_sg False st
      = policyGroupsLoop w (policyPaths policy) sgs allowed_sg False st"
    by (rule policyGroupsLoop_same)
  show ?case
    by (simp add: assms(2) gl IH postWarning_same [OF assms(1)]
        cong: option.case_cong sum.case_cong prod.case_cong if_cong)
qed

lemma policyPhase_same:
  assumes "sameAnswersOffList w (w\<lparr>json_normalize := j, rego_Eval := e\<rparr>)
             (Policies (Cfg (chk st))) sgs allowed_sg"
  shows "policyPhase (w\<lparr>json_normalize := j, rego_Eval := e\<rparr>) sgs allowed_sg st
           = policyPhase w sgs allowed_sg st"
  unfolding policyPhase_def
  by (rule policiesLoop_same) (simp_all add: assms)

lemma policyQueries_product:
  "concat (map (\<lambda>policy. policyQueries policy sgs allowed_sg) policies)
     = map (\<lambda>(policy, sg). (policyPaths policy, sg))
         (List.product policies (filter (\<lambda>sg. sg_ID sg \<notin> set allowed_sg) sgs))"
  by (induction policies) (simp_all add: policyQueries_def comp_def)

text \<open>
  C7. Whatever the outcome of the policy pass, the evaluations it requests of the
  policy engine are an initial part of the list that has one evaluation for every
  pair of a policy and a group whose id is not on the dynamic allow-list, in the
  order of the policies and, within a policy, of the groups; when the pass returns
  no error they are the whole list, every pair once. No evaluation is for a group on
  the allow-list, and no finding in the accumulator is about such a group. The
  findings in the accumulator are those of the evaluations requested, one for every
  evaluation whose answer is true, in the same order. What the encoder and the engine
  would answer about a group on the allow-list has no influence: with any other
  encoder and engine that answer alike about the other groups, the pass returns the
  same result and leaves the same state.
\<close>

theorem policyPhase_skips_allowed_groups:
  assumes "policyPhase w sgs allowed_sg st = (r, st')"
  shows
    "(\<exists>E E'. evals st' = evals st @ E
        \<and> concat (map (\<lambda>policy. policyQueries policy sgs allowed_sg)
                     (Policies (Cfg (chk st)))) = E @ E'
        \<and> (r = None \<longrightarrow> E' = [])
        \<and> (\<forall>e \<in> set (E @ E'). sg_ID (snd e) \<notin> set allowed_sg)
        \<and> (\<forall>a \<in> set (Attachments (chk st')). fieldValue ''ID'' a \<notin> set allowed_sg)
        \<and> E @ E' = map (\<lambda>(policy, sg). (policyPaths policy, sg))
                       (List.product (Policies (Cfg (chk st)))
                          (filter (\<lambda>sg. sg_ID sg \<notin> set allowed_sg) sgs))
        \<and> Attachments (chk st') = evaluationFindings w (Projects (chk st)) E)
     \<and> (sameAnswersOffList w (w\<lparr>json_normalize := j, rego_Eval := e\<rparr>)
            (Policies (Cfg (chk st))) sgs allowed_sg
          \<longrightarrow> policyPhase (w\<lparr>json_normalize := j, rego_Eval := e\<rparr>) sgs allowed_sg st
                = (r, st'))"
proof -
  let ?st0 = "st\<lparr>chk := (chk st)\<lparr>Attachments := []\<rparr>\<rparr>"
  let ?all = "concat (map (\<lambda>policy. policyQueries policy sgs allowed_sg)
                        (Policies (Cfg (chk st))))"
  from assms have loop:
    "policiesLoop w (Policies (Cfg (chk st))) sgs allowed_sg ?st0 = (r, st')"
    by (simp add: policyPhase_def)
  from policiesLoop_prefix [OF loop] obtain E E' where
    pre: "evals st' = evals st @ E" "?all = E @ E'"
    by auto
  from policiesLoop_any [OF loop] have
    att: "\<forall>a \<in> set (Attachments (chk st')). fieldValue ''ID'' a \<notin> set allowed_sg"
    by auto
  have off: "\<forall>e \<in> set ?all. sg_ID (snd e) \<notin> set allowed_sg"
    by (auto simp add: policyQueries_def)
  have whole: "E' = []" if "r = None"
  proof -
    from policiesLoop_ok [OF loop [unfolded that]] have "evals st' = evals st @ ?all"
      by simp
    with pre show ?thesis
      by simp
  qed
  from policiesLoop_link [OF loop] obtain E2 where
    "evals st' = evals st @ E2"
    "Attachments (chk st') = evaluationFindings w (Projects (chk st)) E2"
    by auto
  with pre(1) have tie: "Attachments (chk st') = evaluationFindings w (Projects (chk st)) E"
    by simp
  have prod: "E @ E' = map (\<lambda>(policy, sg). (policyPaths policy, sg))
                       (List.product (Policies (Cfg (chk st)))
                          (filter (\<lambda>sg. sg_ID sg \<notin> set allowed_sg) sgs))"
    using pre(2) policyQueries_product [of sgs allowed_sg "Policies (Cfg (chk st))"]
    by simp
  have first: "\<exists>E E'. evals st' = evals st @ E
        \<and> ?all = E @ E'
        \<and> (r = None \<longrightarrow> E' = [])
        \<and> (\<forall>e \<in> set (E @ E'). sg_ID (snd e) \<notin> set allowed_sg)
        \<and> (\<forall>a \<in> set (Attachments (chk st')). fieldValue ''ID'' a \<notin> set allowed_sg)
        \<and> E @ E' = map (\<lambda>(policy, sg). (policyPaths policy, sg))
                       (List.product (Policies (Cfg (chk st)))
                          (filter (\<lambda>sg. sg_ID sg \<notin> set allowed_sg) sgs))
        \<and> Attachments (chk st') = evaluationFindings w (Projects (chk st)) E"
    using pre att off whole tie prod by metis
  have second: "policyPhase (w\<lparr>json_normalize := j, rego_Eval := e\<rparr>) sgs allowed_sg st = (r, st')"
    if "sameAnswersOffList w (w\<lparr>json_normalize := j, rego_Eval := e\<rparr>)
          (Policies (Cfg (chk st))) sgs allowed_sg"
    using policyPhase_same [OF that] assms by simp
  from first second show ?thesis
    by blast
qed

theorem policyPhase_skips_allowed_groups_witness:
  "fst (policyPhase example_world example_groups [''sg-9''] example_state) = None
   \<and> evals (snd (policyPhase example_world example_groups [''sg-9''] example_state))
       = [([''a.rego''], example_sg), ([''a.rego''], example_other),
          ([''b.rego'', ''b.json''], example_sg), ([''b.rego'', ''b.json''], example_other)]
   \<and> map (fieldValue ''ID'')
         (Attachments (chk (snd (policyPhase example_world example_groups [''sg-9'']
                                   example_state))))
       = [''sg-1'', ''sg-1'', ''sg-2'']
   \<and> ''sg-9'' \<notin> fieldValue ''ID''
         ` set (Attachments (chk (snd (policyPhase example_world example_groups [''sg-9'']
                                        example_state))))
   \<and> policyPhase (example_world\<lparr>json_normalize := json_normalize example_world,
                                  rego_Eval := example_engine_down\<rparr>)
         example_groups [''sg-9''] example_state
       = policyPhase example_world example_groups [''sg-9''] example_state
   \<and> fst (policyPhase (example_world\<lparr>json_normalize := json_normalize example_world,
                                       rego_Eval := example_engine_down\<rparr>)
              example_groups [] example_state)
       = Some (External ''engine down'')"
proof -
  let ?p = "policyPhase example_world example_groups [''sg-9''] example_state"
  let ?w' = "example_world\<lparr>json_normalize := json_normalize example_world,
                           rego_Eval := example_engine_down\<rparr>"
  let ?q = "[([''a.rego''], example_sg), ([''a.rego''], example_other),
            ([''b.rego'', ''b.json''], example_sg), ([''b.rego'', ''b.json''], example_other)]"
  have ok: "fst ?p = None"
    by code_simp
  then have run: "?p = (None, snd ?p)"
    by (simp add: prod_eq_iff)
  have q: "concat (map (\<lambda>policy. policyQueries policy example_groups [''sg-9''])
                         (Policies (Cfg (chk example_state)))) = ?q"
    by code_simp
  have e0: "evals example_state = []"
    by code_simp
  have f: "map (fieldValue ''ID'')
             (evaluationFindings example_world (Projects (chk example_state)) ?q)
           = [''sg-1'', ''sg-1'', ''sg-2'']"
    by code_simp
  have same: "sameAnswersOffList example_world ?w' (Policies (Cfg (chk example_state)))
                example_groups [''sg-9'']"
    by code_simp
  have down: "fst (policyPhase ?w' example_groups [] example_state)
                = Some (External ''engine down'')"
    by code_simp
  note inst = policyPhase_skips_allowed_groups [OF run,
                where j = "json_normalize example_world" and e = example_engine_down]
  from inst obtain E E' where
    E: "evals (snd ?p) = evals example_state @ E"
      "concat (map (\<lambda>policy. policyQueries policy example_groups [''sg-9''])
                 (Policies (Cfg (chk example_state)))) = E @ E'"
      "E' = []"
      "\<forall>a \<in> set (Attachments (chk (snd ?p))). fieldValue ''ID'' a \<notin> set [''sg-9'']"
      "Attachments (chk (snd ?p))
         = evaluationFindings example_world (Projects (chk example_state)) E"
    by blast
  have Eq: "E = ?q"
    using E(2) E(3) q by simp
  have 1: "evals (snd ?p) = ?q"
    using E(1) Eq e0 by simp
  have 2: "map (fieldValue ''ID'') (Attachments (chk (snd ?p))) = [''sg-1'', ''sg-1'', ''sg-2'']"
    using E(5) Eq f by simp
  have 3: "''sg-9'' \<notin> fieldValue ''ID'' ` set (Attachments (chk (snd ?p)))"
    using E(4) by auto
  have 4: "policyPhase ?w' example_groups [''sg-9''] example_state = ?p"
    using inst same run by simp
  from ok 1 2 3 4 down show ?thesis
    by (simp only: simp_thms)
qed

text \<open>
  C9. The policy pass empties the accumulator once, before the first policy, and
  never again: when it returns no error, the accumulator holds the findings of all
  policies in order, whatever it held before the pass, and the batch posted for the
  policy at position \<open>i\<close> carries the findings of the policies at positions
  \<open>0, \<dots>, i\<close>, the earlier ones first. A run that returns no error ends with
  this pass, after the open-access pass, so that its accumulator holds the findings
  of the policies and none of the open-access pass.
\<close>

theorem policyPhase_batches_accumulate:
  "(policyPhase w sgs allowed_sg st = (None, st') \<longrightarrow>
      Attachments (chk st')
        = concat (map (policyFindings w (Projects (chk st)) sgs allowed_sg)
                    (Policies (Cfg (chk st))))
      \<and> sent st'
        = sent st
          @ concat (map (policyBatch w (Cfg (chk st)) (Projects (chk st)) sgs allowed_sg
                           (Policies (Cfg (chk st))))
                      [0 ..< length (Policies (Cfg (chk st)))]))
   \<and> (Run w st0 = (None, st1) \<longrightarrow>
        (\<exists>len allowed ps groups.
           redis_LLen w = Inr len \<and> redis_LRange w len = Inr allowed
           \<and> os_fetchProjects w = Inr ps \<and> os_fetchSecurityGroups w = Inr groups
           \<and> Attachments (chk st1)
               = concat (map (policyFindings w ps groups allowed) (Policies (Cfg (chk st0))))))"
proof -
  have phase: "Attachments (chk st')
        = concat (map (policyFindings w (Projects (chk st)) sgs allowed_sg)
                    (Policies (Cfg (chk st))))
      \<and> sent st'
        = sent st
          @ concat (map (policyBatch w (Cfg (chk st)) (Projects (chk st)) sgs allowed_sg
                           (Policies (Cfg (chk st))))
                      [0 ..< length (Policies (Cfg (chk st)))])"
    if run: "policyPhase w sgs allowed_sg st = (None, st')" for sgs allowed_sg st st'
  proof -
    let ?st0 = "st\<lparr>chk := (chk st)\<lparr>Attachments := []\<rparr>\<rparr>"
    from run have loop:
      "policiesLoop w (Policies (Cfg (chk st))) sgs allowed_sg ?st0 = (None, st')"
      by (simp add: policyPhase_def)
    from policiesLoop_ok [OF loop] show ?thesis
      by (simp add: policyBatch_def [abs_def] cong: if_cong)
  qed
  have whole: "\<exists>len allowed ps groups.
           redis_LLen w = Inr len \<and> redis_LRange w len = Inr allowed
           \<and> os_fetchProjects w = Inr ps \<and> os_fetchSecurityGroups w = Inr groups
           \<and> Attachments (chk st1)
               = concat (map (policyFindings w ps groups allowed) (Policies (Cfg (chk st0))))"
    if run: "Run w st0 = (None, st1)"
  proof -
    from run obtain len allowed ps ports fips groups sa sb where
      r: "redis_LLen w = Inr len" "redis_LRange w len = Inr allowed"
        "os_fetchProjects w = Inr ps" "os_fetchSecurityGroups w = Inr groups"
        "Projects (chk sa) = ps" "Policies (Cfg (chk sa)) = Policies (Cfg (chk st0))"
        "openAccessPhase w groups ports fips allowed sa = (None, sb)"
        "policyPhase w groups allowed sb = (None, st1)"
      by (rule Run_ok_phases)
    from openAccessPhase_frame [OF r(7)] r(5) r(6)
    have "Projects (chk sb) = ps" "Policies (Cfg (chk sb)) = Policies (Cfg (chk st0))"
      by simp_all
    with phase [OF r(8)] r(1-4) show ?thesis
      by auto
  qed
  from phase whole show ?thesis
    by blast
qed

theorem policyPhase_batches_accumulate_witness:
  "fst (policyPhase example_world example_groups [''sg-9''] example_state) = None
   \<and> map (fieldValue ''ID'')
        (Attachments (chk (snd (policyPhase example_world example_groups [''sg-9'']
                                  example_state))))
       = [''sg-1'', ''sg-1'', ''sg-2'']
   \<and> map (\<lambda>m. (msg_text m, map (fieldValue ''ID'') (msg_attachments m)))
        (sent (snd (policyPhase example_world example_groups [''sg-9''] example_state)))
       = [(''policy A'', []), ([], [''sg-1'']), (''end of A'', []),
          (''policy B'', []), ([], [''sg-1'']), ([], [''sg-1'']), ([], [''sg-2'']),
          (''end of B'', [])]
   \<and> fst (Run example_world example_state) = None
   \<and> Attachments (chk (snd (Run example_world example_state)))
       = concat (map (policyFindings example_world
                        [\<lparr>project_ID = ''t1'', project_Name = ''Alpha''\<rparr>] example_groups
                        [''sg-9''])
                   example_policies)"
proof -
  let ?p = "policyPhase example_world example_groups [''sg-9''] example_state"
  let ?r = "Run example_world example_state"
  have ok: "fst ?p = None"
    by code_simp
  then have run: "?p = (None, snd ?p)"
    by (simp add: prod_eq_iff)
  have ok': "fst ?r = None"
    by code_simp
  then have run': "?r = (None, snd ?r)"
    by (simp add: prod_eq_iff)
  have a: "map (fieldValue ''ID'')
             (concat (map (policyFindings example_world (Projects (chk example_state))
                             example_groups [''sg-9''])
                        (Policies (Cfg (chk example_state)))))
           = [''sg-1'', ''sg-1'', ''sg-2'']"
    by code_simp
  have s: "map (\<lambda>m. (msg_text m, map (fieldValue ''ID'') (msg_attachments m)))
             (sent example_state
              @ concat (map (policyBatch example_world (Cfg (chk example_state))
                               (Projects (chk example_state)) example_groups [''sg-9'']
                               (Policies (Cfg (chk example_state))))
                          [0 ..< length (Policies (Cfg (chk example_state)))]))
           = [(''policy A'', []), ([], [''sg-1'']), (''end of A'', []),
              (''policy B'', []), ([], [''sg-1'']), ([], [''sg-1'']), ([], [''sg-2'']),
              (''end of B'', [])]"
    by code_simp
  have w: "redis_LLen example_world = Inr 1" "redis_LRange example_world 1 = Inr [''sg-9'']"
    "os_fetchProjects example_world = Inr [\<lparr>project_ID = ''t1'', project_Name = ''Alpha''\<rparr>]"
    "os_fetchSecurityGroups example_world = Inr example_groups"
    "Policies (Cfg (chk example_state)) = example_policies"
    by code_simp+
  note th = policyPhase_batches_accumulate
              [of example_world example_groups "[''sg-9'']" example_state "snd ?p"
                  example_state "snd ?r"]
  from th run have p1: "Attachments (chk (snd ?p))
        = concat (map (policyFindings example_world (Projects (chk example_state))
                         example_groups [''sg-9''])
                    (Policies (Cfg (chk example_state))))"
    and p2: "sent (snd ?p)
        = sent example_state
          @ concat (map (policyBatch example_world (Cfg (chk example_state))
                           (Projects (chk example_state)) example_groups [''sg-9'']
                           (Policies (Cfg (chk example_state))))
                      [0 ..< length (Policies (Cfg (chk example_state)))])"
    by blast+
  from th run' w have p3: "Attachments (chk (snd ?r))
       = concat (map (policyFindings example_world
                        [\<lparr>project_ID = ''t1'', project_Name = ''Alpha''\<rparr>] example_groups
                        [''sg-9''])
                   example_policies)"
    by auto
  show ?thesis
    using ok ok' p3 by (simp only: p1 p2 a s simp_thms)
qed

text \<open>
  C5, where the program departs from it. A tenant id that no project has is the label
  of an open-access finding, but the label of a policy-match finding is the empty
  string: \<^verbatim>\<open>matchPolicy\<close> discards the error of \<^verbatim>\<open>getProjectNameFromID\<close> and keeps
  the empty name it returned. Neither function returns an error for the miss.
\<close>

theorem matchPolicy_label_empty_on_miss:
  "getProjectNameFromID (sg_TenantID example_sg) [] = ([], Some (NotFoundProject ''t1''))
   \<and> fst (matchPolicy example_world [''a.rego''] example_sg example_state_no_projects)
       = (True, None)
   \<and> map (fieldValue ''Tenant'')
        (Attachments (chk (snd (matchPolicy example_world [''a.rego''] example_sg
                                  example_state_no_projects))))
       = [[]]
   \<and> fst (isFullOpen (chk example_state_no_projects) example_sg
            [example_port ''203.0.113.5''] [] [])
       = (True, None)
   \<and> map (fieldValue ''Tenant'')
        (Attachments (snd (isFullOpen (chk example_state_no_projects) example_sg
                             [example_port ''203.0.113.5''] [] [])))
       = [''t1'']"
  by code_simp

end
